theory Spec2Isabelle
  imports Complex_Main "HOL-Library.Multiset"
begin

section \<open>Step protocol and working array (algos.js)\<close>

text \<open>
  \<^verbatim>\<open>algos.js\<close> exposes five generator functions, \<^verbatim>\<open>bubbleGen\<close>, \<^verbatim>\<open>quickGen\<close>,
  \<^verbatim>\<open>mergeGen\<close>, \<^verbatim>\<open>heapGen\<close> and \<^verbatim>\<open>radixGen\<close>. Each one sorts the array it is handed
  in place and yields one action object per elementary operation.

  Array elements are JavaScript numbers. They are modelled as exact rationals: the
  comparisons and the scaling arithmetic of \<^verbatim>\<open>radixGen\<close> are those of the rationals,
  without the rounding of IEEE doubles, and \<^verbatim>\<open>NaN\<close> is not an element. Indices
  are JavaScript numbers holding integers, and they become negative in the source
  (\<^verbatim>\<open>arr.length - 1\<close> on an empty array, \<^verbatim>\<open>j--\<close> at position 0), so they are \<open>int\<close>.

  An action object \<^verbatim>\<open>{type: 'compare', a, b}\<close>, \<^verbatim>\<open>{type: 'swap', a, b}\<close>,
  \<^verbatim>\<open>{type: 'set', i, value}\<close> or \<^verbatim>\<open>{type: 'done'}\<close> is a \<open>step\<close>. \<^verbatim>\<open>quickGen\<close> and
  \<^verbatim>\<open>radixGen\<close> yield \<^verbatim>\<open>compare\<close> objects without the field \<^verbatim>\<open>b\<close>, hence the option.
\<close>

type_synonym val = rat

datatype step = Compare int "int option" | Swap int int | SetV int val | Done

text \<open>
  A run is recorded as a list of events, in the order in which they happen:
  \<^item> \<open>Yield s a\<close>: the generator yields the step \<open>s\<close> and suspends; \<open>a\<close> is the shared
    array at that moment. A consumer that has pulled this step and pulls no further sees
    exactly \<open>a\<close>, since a suspended generator runs no code.
  \<^item> \<open>Test a b\<close>: the generator evaluates a comparison of element values and branches on
    it: the elements of positions \<open>a\<close> and \<open>b\<close> with each other (or, in \<^verbatim>\<open>mergeGen\<close>,
    their copies in the temporary buffers), or the element of position \<open>a\<close> with the
    pivot when \<open>b\<close> is \<open>None\<close>. It is no yield and a consumer never sees it; it records
    where in the run the comparison is made.
  \<^item> \<open>Throw\<close>: the generator throws (a \<^verbatim>\<open>TypeError\<close>), which ends the run.
\<close>

datatype event = Yield step "val list" | Test int "int option" | Throw

record gstate =
  arr :: "val list"
  trace :: "event list"

text \<open>
  Reading \<^verbatim>\<open>arr[i]\<close> outside the array gives \<^verbatim>\<open>undefined\<close> (\<open>None\<close>), and a relational
  comparison with \<^verbatim>\<open>undefined\<close> is false.
\<close>

definition rd :: "val list \<Rightarrow> int \<Rightarrow> val option" where
  "rd a i = (if 0 \<le> i \<and> i < int (length a) then Some (a ! nat i) else None)"

fun js_lt :: "val option \<Rightarrow> val option \<Rightarrow> bool" where
  "js_lt (Some x) (Some y) = (x < y)"
| "js_lt _ _ = False"

definition js_gt :: "val option \<Rightarrow> val option \<Rightarrow> bool" where
  "js_gt x y = js_lt y x"

text \<open>
  \<^verbatim>\<open>arr[i] = v\<close>. A write outside \<open>0..<length\<close> would grow a JavaScript array or add a
  property to it; a list cannot express that, and the model leaves the list as it is.
  Every write of the generators is followed by the yield of a \<open>Swap\<close> or \<open>SetV\<close> step that
  carries the written indices, and the section on index validity below shows that those
  indices are inside the array, so this branch is never taken.
\<close>

definition wr :: "val list \<Rightarrow> int \<Rightarrow> val \<Rightarrow> val list" where
  "wr a i v = (if 0 \<le> i \<and> i < int (length a) then a[nat i := v] else a)"

text \<open>
  The helper \<^verbatim>\<open>swap(arr, i, j)\<close>: \<^verbatim>\<open>const t = arr[i]; arr[i] = arr[j]; arr[j] = t\<close>.
\<close>

definition swap_arr :: "val list \<Rightarrow> int \<Rightarrow> int \<Rightarrow> val list" where
  "swap_arr a i j =
     (case (rd a i, rd a j) of
        (Some t, Some u) \<Rightarrow> wr (wr a i u) j t
      | _ \<Rightarrow> a)"

definition yield :: "step \<Rightarrow> gstate \<Rightarrow> gstate" where
  "yield s st = st\<lparr>trace := trace st @ [Yield s (arr st)]\<rparr>"

definition test :: "int \<Rightarrow> int option \<Rightarrow> gstate \<Rightarrow> gstate" where
  "test a b st = st\<lparr>trace := trace st @ [Test a b]\<rparr>"

definition store :: "int \<Rightarrow> val \<Rightarrow> gstate \<Rightarrow> gstate" where
  "store k v st = st\<lparr>arr := wr (arr st) k v\<rparr>"

definition throw :: "gstate \<Rightarrow> gstate" where
  "throw st = st\<lparr>trace := trace st @ [Throw]\<rparr>"

definition swap :: "int \<Rightarrow> int \<Rightarrow> gstate \<Rightarrow> gstate" where
  "swap i j st = st\<lparr>arr := swap_arr (arr st) i j\<rparr>"

text \<open>The state in which a generator starts: the caller's array, nothing yielded yet.\<close>

definition initial :: "val list \<Rightarrow> gstate" where
  "initial a = \<lparr>arr = a, trace = []\<rparr>"

lemma arr_yield [simp]: "arr (yield s st) = arr st"
  by (simp add: yield_def)

lemma arr_test [simp]: "arr (test a b st) = arr st"
  by (simp add: test_def)

lemma arr_throw [simp]: "arr (throw st) = arr st"
  by (simp add: throw_def)

lemma arr_initial [simp]: "arr (initial a) = a"
  by (simp add: initial_def)

lemma trace_initial [simp]: "trace (initial a) = []"
  by (simp add: initial_def)

lemma length_wr [simp]: "length (wr a i v) = length a"
  by (simp add: wr_def)

lemma length_swap_arr [simp]: "length (swap_arr a i j) = length a"
  by (simp add: swap_arr_def split: option.splits)

lemma arr_swap [simp]: "arr (swap i j st) = swap_arr (arr st) i j"
  by (simp add: swap_def)

lemma arr_store [simp]: "arr (store k v st) = wr (arr st) k v"
  by (simp add: store_def)

lemma trace_yield [simp]: "trace (yield s st) = trace st @ [Yield s (arr st)]"
  by (simp add: yield_def)

lemma trace_test [simp]: "trace (test a b st) = trace st @ [Test a b]"
  by (simp add: test_def)

lemma trace_throw [simp]: "trace (throw st) = trace st @ [Throw]"
  by (simp add: throw_def)

lemma trace_swap [simp]: "trace (swap i j st) = trace st"
  by (simp add: swap_def)

lemma trace_store [simp]: "trace (store k v st) = trace st"
  by (simp add: store_def)

lemma js_lt_irrefl [simp]: "\<not> js_lt p p"
  by (cases p) simp_all

section \<open>bubbleGen\<close>

text \<open>
  \<^verbatim>\<open>
  function* bubbleGen(arr) {
    const n = arr.length;
    for (let i = 0; i < n; i++) {
      let swapped = false;
      for (let j = 0; j < n - 1 - i; j++) {
        yield { type: "compare", a: j, b: j + 1 };
        if (arr[j] > arr[j + 1]) {
          swap(arr, j, j + 1);
          yield { type: "swap", a: j, b: j + 1 };
          swapped = true;
        }
      }
      if (!swapped) break;
    }
    yield { type: "done" };
  }\<close>
  \<open>bubble_inner\<close> is the loop over \<open>j\<close>, \<open>bubble_outer\<close> the loop over \<open>i\<close>.
\<close>

function bubble_inner :: "int \<Rightarrow> int \<Rightarrow> int \<Rightarrow> bool \<Rightarrow> gstate \<Rightarrow> bool \<times> gstate" where
  "bubble_inner n i j swapped st =
     (if j < n - 1 - i then
        let st1 = test j (Some (j + 1)) (yield (Compare j (Some (j + 1))) st) in
        if js_gt (rd (arr st1) j) (rd (arr st1) (j + 1)) then
          bubble_inner n i (j + 1) True (yield (Swap j (j + 1)) (swap j (j + 1) st1))
        else bubble_inner n i (j + 1) swapped st1
      else (swapped, st))"
  by pat_completeness auto
termination
  by (relation "measure (\<lambda>(n, i, j, swapped, st). nat (n - 1 - i - j))") auto

declare bubble_inner.simps [simp del]

function bubble_outer :: "int \<Rightarrow> int \<Rightarrow> gstate \<Rightarrow> gstate" where
  "bubble_outer n i st =
     (if i < n then
        let (swapped, st1) = bubble_inner n i 0 False st in
        if \<not> swapped then st1 else bubble_outer n (i + 1) st1
      else st)"
  by pat_completeness auto
termination
  by (relation "measure (\<lambda>(n, i, st). nat (n - i))") auto

declare bubble_outer.simps [simp del]

definition bubbleGen :: "val list \<Rightarrow> gstate" where
  "bubbleGen a = (let n = int (length a) in yield Done (bubble_outer n 0 (initial a)))"

section \<open>quickGen\<close>

text \<open>
  \<^verbatim>\<open>
  function* quickGen(arr) {
    const stack = [[0, arr.length - 1]];
    while (stack.length) {
      const [l, r] = stack.pop();
      if (l >= r) continue;
      const pivot = arr[Math.floor((l + r) / 2)];
      let i = l, j = r;
      while (i <= j) {
        while (arr[i] < pivot) { yield { type: "compare", a: i }; i++; }
        while (arr[j] > pivot) { yield { type: "compare", a: j }; j--; }
        if (i <= j) {
          swap(arr, i, j);
          yield { type: "swap", a: i, b: j };
          i++; j--;
        }
      }
      if (l < j) stack.push([l, j]);
      if (i < r) stack.push([i, r]);
    }
    yield { type: "done" };
  }\<close>
  \<open>scan_left\<close> and \<open>scan_right\<close> are the two inner \<^verbatim>\<open>while\<close> loops. Each evaluation of
  the loop condition is a \<open>Test\<close> event; the \<^verbatim>\<open>compare\<close> step is yielded in the loop body,
  that is, after the condition was found true. \<open>partition_loop\<close> is the loop
  \<^verbatim>\<open>while (i <= j)\<close>, \<open>quick_loop\<close> the loop over the stack. The stack is a list whose head
  is the top: \<^verbatim>\<open>push\<close> is \<open>#\<close>, \<^verbatim>\<open>pop\<close> takes the head.
\<close>

function scan_left :: "val option \<Rightarrow> int \<Rightarrow> gstate \<Rightarrow> int \<times> gstate" where
  "scan_left pivot i st =
     (let st1 = test i None st in
      if js_lt (rd (arr st1) i) pivot then scan_left pivot (i + 1) (yield (Compare i None) st1)
      else (i, st1))"
  by pat_completeness auto
termination
  by (relation "measure (\<lambda>(pivot, i, st). nat (int (length (arr st)) - i))")
     (auto simp: rd_def split: if_splits)

declare scan_left.simps [simp del]

function scan_right :: "val option \<Rightarrow> int \<Rightarrow> gstate \<Rightarrow> int \<times> gstate" where
  "scan_right pivot j st =
     (let st1 = test j None st in
      if js_gt (rd (arr st1) j) pivot then scan_right pivot (j - 1) (yield (Compare j None) st1)
      else (j, st1))"
  by pat_completeness auto
termination
  by (relation "measure (\<lambda>(pivot, j, st). nat (j + 1))")
     (auto simp: rd_def js_gt_def split: if_splits)

declare scan_right.simps [simp del]

lemma scan_left_ge: "i \<le> fst (scan_left pivot i st)"
proof (induction pivot i st rule: scan_left.induct)
  case (1 pivot i st)
  show ?case
  proof (cases "js_lt (rd (arr (test i None st)) i) pivot")
    case True
    with 1 show ?thesis
      by (subst scan_left.simps) (simp add: Let_def)
  next
    case False
    then show ?thesis
      by (subst scan_left.simps) (simp add: Let_def)
  qed
qed

lemma scan_right_le: "fst (scan_right pivot j st) \<le> j"
proof (induction pivot j st rule: scan_right.induct)
  case (1 pivot j st)
  show ?case
  proof (cases "js_gt (rd (arr (test j None st)) j) pivot")
    case True
    with 1 show ?thesis
      by (subst scan_right.simps) (simp add: Let_def)
  next
    case False
    then show ?thesis
      by (subst scan_right.simps) (simp add: Let_def)
  qed
qed

function partition_loop :: "val option \<Rightarrow> int \<Rightarrow> int \<Rightarrow> gstate \<Rightarrow> int \<times> int \<times> gstate" where
  "partition_loop pivot i j st =
     (if i \<le> j then
        let (i1, st1) = scan_left pivot i st;
            (j1, st2) = scan_right pivot j st1
        in if i1 \<le> j1 then
             partition_loop pivot (i1 + 1) (j1 - 1) (yield (Swap i1 j1) (swap i1 j1 st2))
           else partition_loop pivot i1 j1 st2
      else (i, j, st))"
  by pat_completeness auto
termination
proof (relation "measure (\<lambda>(pivot, i, j, st). if i \<le> j then nat (j - i) + 1 else 0)", goal_cases)
  case 1
  show ?case by simp
next
  case (2 pivot i j st x i1 st1 y j1 st2)
  have "i \<le> i1" using scan_left_ge [of i pivot st] 2 by (metis fst_conv)
  moreover have "j1 \<le> j" using scan_right_le [of pivot j st1] 2 by (metis fst_conv)
  ultimately show ?case using 2 by auto
next
  case (3 pivot i j st x i1 st1 y j1 st2)
  show ?case using 3(1) 3(6) by simp
qed

declare partition_loop.simps [simp del]


lemma scan_left_arr [simp]: "arr (snd (scan_left pivot i st)) = arr st"
proof (induction pivot i st rule: scan_left.induct)
  case (1 pivot i st)
  then show ?case
    by (subst scan_left.simps) (simp add: Let_def)
qed

lemma scan_right_arr [simp]: "arr (snd (scan_right pivot j st)) = arr st"
proof (induction pivot j st rule: scan_right.induct)
  case (1 pivot j st)
  then show ?case
    by (subst scan_right.simps) (simp add: Let_def)
qed

lemma scan_left_stop:
  "\<not> js_lt (rd (arr st) x) pivot \<Longrightarrow> i \<le> x \<Longrightarrow> fst (scan_left pivot i st) \<le> x"
proof (induction pivot i st rule: scan_left.induct)
  case (1 pivot i st)
  show ?case
  proof (cases "js_lt (rd (arr (test i None st)) i) pivot")
    case True
    with "1.prems" have "i \<noteq> x" by auto
    with "1.prems" have "i + 1 \<le> x" by simp
    with 1 True show ?thesis
      by (subst scan_left.simps) (simp add: Let_def)
  next
    case False
    with "1.prems" show ?thesis
      by (subst scan_left.simps) (simp add: Let_def)
  qed
qed

lemma scan_right_stop:
  "\<not> js_gt (rd (arr st) x) pivot \<Longrightarrow> x \<le> j \<Longrightarrow> x \<le> fst (scan_right pivot j st)"
proof (induction pivot j st rule: scan_right.induct)
  case (1 pivot j st)
  show ?case
  proof (cases "js_gt (rd (arr (test j None st)) j) pivot")
    case True
    with "1.prems" have "j \<noteq> x" by auto
    with "1.prems" have "x \<le> j - 1" by simp
    with 1 True show ?thesis
      by (subst scan_right.simps) (simp add: Let_def)
  next
    case False
    with "1.prems" show ?thesis
      by (subst scan_right.simps) (simp add: Let_def)
  qed
qed

lemma partition_loop_mono:
  "partition_loop pivot i j st = (i', j', st') \<Longrightarrow> i \<le> i' \<and> j' \<le> j \<and> j' < i'"
proof (induction pivot i j st arbitrary: i' j' st' rule: partition_loop.induct)
  case (1 pivot i j st)
  show ?case
  proof (cases "i \<le> j")
    case False
    with "1.prems" show ?thesis
      by (simp add: partition_loop.simps)
  next
    case True
    obtain i1 st1 where sl: "scan_left pivot i st = (i1, st1)" by (cases "scan_left pivot i st")
    obtain j1 st2 where sr: "scan_right pivot j st1 = (j1, st2)" by (cases "scan_right pivot j st1")
    have i1: "i \<le> i1" using scan_left_ge [of i pivot st] sl by simp
    have j1: "j1 \<le> j" using scan_right_le [of pivot j st1] sr by simp
    show ?thesis
    proof (cases "i1 \<le> j1")
      case le: True
      have "partition_loop pivot (i1 + 1) (j1 - 1) (yield (Swap i1 j1) (swap i1 j1 st2)) = (i', j', st')"
        using "1.prems" True sl sr le by (subst (asm) partition_loop.simps) simp
      from "1.IH"(1) [OF True sl [symmetric] refl sr [symmetric] refl le this] i1 j1
      show ?thesis by simp
    next
      case gt: False
      have "partition_loop pivot i1 j1 st2 = (i', j', st')"
        using "1.prems" True sl sr gt by (subst (asm) partition_loop.simps) simp
      from "1.IH"(2) [OF True sl [symmetric] refl sr [symmetric] refl gt this] i1 j1
      show ?thesis by simp
    qed
  qed
qed

lemma partition_loop_bounds:
  assumes "l < r" and "partition_loop (rd (arr st) ((l + r) div 2)) l r st = (i, j, st')"
  shows "l < i \<and> j < r \<and> j < i"
proof -
  let ?m = "(l + r) div 2"
  let ?p = "rd (arr st) ?m"
  obtain i1 st1 where sl: "scan_left ?p l st = (i1, st1)" by (cases "scan_left ?p l st")
  obtain j1 st2 where sr: "scan_right ?p r st1 = (j1, st2)" by (cases "scan_right ?p r st1")
  have m: "l \<le> ?m" "?m \<le> r" using assms(1) by simp_all
  have a1: "arr st1 = arr st" using scan_left_arr [of ?p l st] sl by simp
  have "l \<le> i1" using scan_left_ge [of l ?p st] sl by simp
  moreover have "j1 \<le> r" using scan_right_le [of ?p r st1] sr by simp
  moreover have "i1 \<le> ?m" using scan_left_stop [of st ?m ?p l] m sl by simp
  moreover have "?m \<le> j1" using scan_right_stop [of st1 ?m ?p r] m sr a1 by (simp add: js_gt_def)
  moreover have "partition_loop ?p (i1 + 1) (j1 - 1) (yield (Swap i1 j1) (swap i1 j1 st2)) = (i, j, st')"
    using assms sl sr \<open>i1 \<le> ?m\<close> \<open>?m \<le> j1\<close> by (subst (asm) partition_loop.simps) simp
  ultimately show ?thesis
    using partition_loop_mono [of ?p "i1 + 1" "j1 - 1" _ i j st'] by force
qed

function quick_loop :: "(int \<times> int) list \<Rightarrow> gstate \<Rightarrow> gstate" where
  "quick_loop [] st = st"
| "quick_loop ((l, r) # stack) st =
     (if l \<ge> r then quick_loop stack st
      else
        let pivot = rd (arr st) ((l + r) div 2);
            (i, j, st1) = partition_loop pivot l r st;
            stack1 = (if l < j then (l, j) # stack else stack);
            stack2 = (if i < r then (i, r) # stack1 else stack1)
        in quick_loop stack2 st1)"
  by pat_completeness auto
termination
proof (relation "measure (\<lambda>(stack, st). sum_list (map (\<lambda>(l, r). if l < r then 2 * nat (r - l) + 1 else 1) stack))", goal_cases)
  case 1
  show ?case by simp
next
  case (2 l r stack st)
  then show ?case by simp
next
  case (3 l r stack st pivot x i y j st1 stack1 stack2)
  have "partition_loop (rd (arr st) ((l + r) div 2)) l r st = (i, j, st1)"
    using 3 by simp
  from partition_loop_bounds [OF _ this] 3(1)
  have "l < i" "j < r" "j < i" by simp_all
  then show ?case using 3(1) 3(6) 3(7) by auto
qed

declare quick_loop.simps [simp del]

definition quickGen :: "val list \<Rightarrow> gstate" where
  "quickGen a = yield Done (quick_loop [(0, int (length a) - 1)] (initial a))"

section \<open>mergeGen\<close>

text \<open>
  \<^verbatim>\<open>
  function* mergeGen(arr) {
    function* mergeRange(l, r) {
      if (l >= r) return;
      const m = Math.floor((l + r) / 2);
      yield* mergeRange(l, m);
      yield* mergeRange(m + 1, r);
      const left = arr.slice(l, m + 1);
      const right = arr.slice(m + 1, r + 1);
      let i = 0, j = 0, k = l;
      while (i < left.length && j < right.length) {
        yield { type: "compare", a: l + i, b: m + 1 + j };
        if (left[i] <= right[j]) {
          arr[k] = left[i++];
          yield { type: "set", i: k, value: arr[k] };
        } else {
          arr[k] = right[j++];
          yield { type: "set", i: k, value: arr[k] };
        }
        k++;
      }
      while (i < left.length)  { arr[k] = left[i++];  yield { type: "set", i: k, value: arr[k] }; k++; }
      while (j < right.length) { arr[k] = right[j++]; yield { type: "set", i: k, value: arr[k] }; k++; }
    }
    yield* mergeRange(0, arr.length - 1);
    yield { type: "done" };
  }\<close>
  \<open>js_slice\<close> is \<^verbatim>\<open>Array.prototype.slice\<close> with its clamping of the two bounds.
  \<open>merge_both\<close>, \<open>merge_left\<close> and \<open>merge_right\<close> are the three \<^verbatim>\<open>while\<close> loops; the
  counters \<open>i\<close> and \<open>j\<close> start at 0 and only grow, so they are naturals, and the loop
  guards keep the buffer reads \<open>left ! i\<close> and \<open>right ! j\<close> inside the buffers. The value
  of a \<^verbatim>\<open>set\<close> step is read back from \<^verbatim>\<open>arr[k]\<close> right after the write, which is the
  value just written. \<open>merge_phase\<close> is the part of \<^verbatim>\<open>mergeRange\<close> after the two recursive
  calls (the two slices and the three loops).
\<close>

definition js_slice :: "val list \<Rightarrow> int \<Rightarrow> int \<Rightarrow> val list" where
  "js_slice a s e =
     (let n = int (length a);
          s' = (if s < 0 then max (n + s) 0 else min s n);
          e' = (if e < 0 then max (n + e) 0 else min e n)
      in take (nat (e' - s')) (drop (nat s') a))"

function merge_both ::
  "int \<Rightarrow> int \<Rightarrow> val list \<Rightarrow> val list \<Rightarrow> nat \<Rightarrow> nat \<Rightarrow> int \<Rightarrow> gstate \<Rightarrow> nat \<times> nat \<times> int \<times> gstate" where
  "merge_both l m left right i j k st =
     (if i < length left \<and> j < length right then
        let st1 = test (l + int i) (Some (m + 1 + int j))
                    (yield (Compare (l + int i) (Some (m + 1 + int j))) st)
        in if left ! i \<le> right ! j then
             merge_both l m left right (i + 1) j (k + 1)
               (yield (SetV k (left ! i)) (store k (left ! i) st1))
           else
             merge_both l m left right i (j + 1) (k + 1)
               (yield (SetV k (right ! j)) (store k (right ! j) st1))
      else (i, j, k, st))"
  by pat_completeness auto
termination
  by (relation "measure (\<lambda>(l, m, left, right, i, j, k, st). (length left - i) + (length right - j))")
     auto

declare merge_both.simps [simp del]

function merge_left :: "val list \<Rightarrow> nat \<Rightarrow> int \<Rightarrow> gstate \<Rightarrow> nat \<times> int \<times> gstate" where
  "merge_left left i k st =
     (if i < length left then
        merge_left left (i + 1) (k + 1) (yield (SetV k (left ! i)) (store k (left ! i) st))
      else (i, k, st))"
  by pat_completeness auto
termination
  by (relation "measure (\<lambda>(left, i, k, st). length left - i)") auto

declare merge_left.simps [simp del]

function merge_right :: "val list \<Rightarrow> nat \<Rightarrow> int \<Rightarrow> gstate \<Rightarrow> nat \<times> int \<times> gstate" where
  "merge_right right j k st =
     (if j < length right then
        merge_right right (j + 1) (k + 1) (yield (SetV k (right ! j)) (store k (right ! j) st))
      else (j, k, st))"
  by pat_completeness auto
termination
  by (relation "measure (\<lambda>(right, j, k, st). length right - j)") auto

declare merge_right.simps [simp del]

definition merge_phase :: "int \<Rightarrow> int \<Rightarrow> int \<Rightarrow> gstate \<Rightarrow> gstate" where
  "merge_phase l m r st =
     (let left = js_slice (arr st) l (m + 1);
          right = js_slice (arr st) (m + 1) (r + 1);
          (i, j, k, st1) = merge_both l m left right 0 0 l st;
          (i', k', st2) = merge_left left i k st1;
          (j', k'', st3) = merge_right right j k' st2
      in st3)"

function mergeRange :: "int \<Rightarrow> int \<Rightarrow> gstate \<Rightarrow> gstate" where
  "mergeRange l r st =
     (if l \<ge> r then st
      else
        let m = (l + r) div 2;
            st1 = mergeRange l m st;
            st2 = mergeRange (m + 1) r st1
        in merge_phase l m r st2)"
  by pat_completeness auto
termination
  by (relation "measure (\<lambda>(l, r, st). nat (r - l))") auto

declare mergeRange.simps [simp del]

definition mergeGen :: "val list \<Rightarrow> gstate" where
  "mergeGen a = yield Done (mergeRange 0 (int (length a) - 1) (initial a))"

section \<open>heapGen\<close>

text \<open>
  \<^verbatim>\<open>
  function* heapGen(arr) {
    const n = arr.length;
    function* siftDown(start, end) {
      let root = start;
      while (true) {
        let child = 2 * root + 1;
        if (child > end) return;
        if (child + 1 <= end) {
          yield { type: "compare", a: child, b: child + 1 };
          if (arr[child] < arr[child + 1]) child++;
        }
        yield { type: "compare", a: root, b: child };
        if (arr[root] < arr[child]) {
          swap(arr, root, child);
          yield { type: "swap", a: root, b: child };
          root = child;
        } else return;
      }
    }
    for (let start = Math.floor((n - 2) / 2); start >= 0; start--) yield* siftDown(start, n - 1);
    for (let end = n - 1; end > 0; end--) {
      swap(arr, 0, end);
      yield { type: "swap", a: 0, b: end };
      yield* siftDown(0, end - 1);
    }
    yield { type: "done" };
  }\<close>
  \<open>siftDown root' end'\<close> is the \<^verbatim>\<open>while (true)\<close> loop with the current value of \<^verbatim>\<open>root\<close>
  (the call \<^verbatim>\<open>siftDown(start, end)\<close> enters it with \<^verbatim>\<open>root = start\<close>); \<open>heap_build\<close> and
  \<open>heap_extract\<close> are the two \<^verbatim>\<open>for\<close> loops.
\<close>

function siftDown :: "int \<Rightarrow> int \<Rightarrow> gstate \<Rightarrow> gstate" where
  "siftDown root' end' st =
     (let child = 2 * root' + 1 in
      if child > end' then st
      else
        let (child1, st1) =
              (if child + 1 \<le> end' then
                 let s = test child (Some (child + 1)) (yield (Compare child (Some (child + 1))) st)
                 in (if js_lt (rd (arr s) child) (rd (arr s) (child + 1)) then child + 1 else child, s)
               else (child, st));
            st2 = test root' (Some child1) (yield (Compare root' (Some child1)) st1)
        in if js_lt (rd (arr st2) root') (rd (arr st2) child1) then
             siftDown child1 end' (yield (Swap root' child1) (swap root' child1 st2))
           else st2)"
  by pat_completeness auto
termination
  by (relation "measure (\<lambda>(root', end', st). nat (end' - root'))")
     (auto simp: rd_def Let_def split: if_splits)

declare siftDown.simps [simp del]

function heap_build :: "int \<Rightarrow> int \<Rightarrow> gstate \<Rightarrow> gstate" where
  "heap_build n start st =
     (if start \<ge> 0 then heap_build n (start - 1) (siftDown start (n - 1) st) else st)"
  by pat_completeness auto
termination
  by (relation "measure (\<lambda>(n, start, st). nat (start + 1))") auto

declare heap_build.simps [simp del]

function heap_extract :: "int \<Rightarrow> gstate \<Rightarrow> gstate" where
  "heap_extract end' st =
     (if end' > 0 then
        heap_extract (end' - 1) (siftDown 0 (end' - 1) (yield (Swap 0 end') (swap 0 end' st)))
      else st)"
  by pat_completeness auto
termination
  by (relation "measure (\<lambda>(end', st). nat end')") auto

declare heap_extract.simps [simp del]

definition heapGen :: "val list \<Rightarrow> gstate" where
  "heapGen a =
     (let n = int (length a);
          st1 = heap_build n ((n - 2) div 2) (initial a);
          st2 = heap_extract (n - 1) st1
      in yield Done st2)"


section \<open>radixGen\<close>

text \<open>
  \<^verbatim>\<open>
  function* radixGen(arr) {
    // assume arr contains numbers in [0,1); scale to ints
    const n = arr.length;
    const scale = 1000; // precision
    const A = arr.map((x) => Math.floor(x * scale));
    let max = 0;
    for (const v of A) if (v > max) max = v;
    let exp = 1;
    while (Math.floor(max / exp) > 0) {
      const buckets = Array.from({ length: 10 }, () => []);
      for (let i = 0; i < n; i++) {
        const d = Math.floor((A[i] / exp) % 10);
        yield { type: "compare", a: i };
        buckets[d].push(A[i]);
      }
      let idx = 0;
      for (let b = 0; b < 10; b++) {
        for (const val of buckets[b]) {
          A[idx] = val;
          arr[idx] = val / scale;
          yield { type: "set", i: idx, value: arr[idx] };
          idx++;
        }
      }
      exp *= 10;
    }
    yield { type: "done" };
  }\<close>
  \<open>js_rem\<close> is the remainder operator \<^verbatim>\<open>%\<close> on numbers (the quotient is truncated towards
  zero, so the result has the sign of the dividend) and \<open>digit\<close> is
  \<^verbatim>\<open>Math.floor((A[i] / exp) % 10)\<close>. \<open>scatter\<close> is the loop over \<open>i\<close>: when \<open>d\<close> is not one
  of \<open>0..9\<close>, \<^verbatim>\<open>buckets[d]\<close> is \<^verbatim>\<open>undefined\<close> and the call of \<^verbatim>\<open>push\<close> throws, after the
  \<^verbatim>\<open>compare\<close> step was yielded. \<open>gather_bucket\<close> is the loop over one bucket, \<open>gather\<close> the
  loop over \<open>b\<close> (the list \<open>buckets\<close> has ten entries throughout), and \<open>radix_loop\<close> is the
  \<^verbatim>\<open>while\<close> loop, whose first component tells whether the run got through without a throw.
  The comparisons \<^verbatim>\<open>v > max\<close> and \<^verbatim>\<open>Math.floor(max / exp) > 0\<close> are on the scaled
  copies and are not recorded as \<open>Test\<close> events.

  The arithmetic of the model is exact and unbounded: \<^verbatim>\<open>x * scale\<close>, \<^verbatim>\<open>A[i] / exp\<close>,
  \<^verbatim>\<open>max / exp\<close>, \<^verbatim>\<open>exp *= 10\<close> and \<^verbatim>\<open>val / scale\<close> are computed in the rationals and
  integers, where JavaScript rounds each result to binary64. The two differ in the
  values: the scaled value of an element and the number written back for it can be other
  than the exact ones (the product of the binary64 number printed as \<^verbatim>\<open>0.11699999999999999\<close> with \<open>1000\<close>
  rounds to \<open>117\<close>, the exact product has floor \<open>116\<close>), scaled values from \<open>2^53\<close> on
  lose digits, and beyond the range of binary64 the source computes with \<^verbatim>\<open>Infinity\<close>.
  What is stated about \<^verbatim>\<open>radixGen\<close> is therefore stated either for every course a run
  can take, or for elements of \<open>[0,1)\<close> and a property that the rounding does not
  touch, or for inputs on which the arithmetic of binary64 is exact.
\<close>

definition js_rem :: "rat \<Rightarrow> rat \<Rightarrow> rat" where
  "js_rem x y = x - y * of_int (if 0 \<le> x / y then \<lfloor>x / y\<rfloor> else \<lceil>x / y\<rceil>)"

definition digit :: "int \<Rightarrow> int \<Rightarrow> int" where
  "digit v exp' = \<lfloor>js_rem (of_int v / of_int exp') 10\<rfloor>"

function scatter ::
  "nat \<Rightarrow> int list \<Rightarrow> int \<Rightarrow> nat \<Rightarrow> int list list \<Rightarrow> gstate \<Rightarrow> int list list option \<times> gstate" where
  "scatter n A exp' i buckets st =
     (if i < n then
        let st1 = yield (Compare (int i) None) st in
        if i < length A \<and> 0 \<le> digit (A ! i) exp' \<and> digit (A ! i) exp' < int (length buckets) then
          let d = nat (digit (A ! i) exp')
          in scatter n A exp' (i + 1) (buckets[d := buckets ! d @ [A ! i]]) st1
        else (None, throw st1)
      else (Some buckets, st))"
  by pat_completeness auto
termination
  by (relation "measure (\<lambda>(n, A, exp', i, buckets, st). n - i)") auto

declare scatter.simps [simp del]

fun gather_bucket :: "int \<Rightarrow> int list \<Rightarrow> nat \<Rightarrow> int list \<Rightarrow> gstate \<Rightarrow> nat \<times> int list \<times> gstate" where
  "gather_bucket scale [] idx A st = (idx, A, st)"
| "gather_bucket scale (v # vs) idx A st =
     (let A1 = A[idx := v];
          st1 = store (int idx) (of_int v / of_int scale) st;
          st2 = yield (SetV (int idx) (of_int v / of_int scale)) st1
      in gather_bucket scale vs (idx + 1) A1 st2)"

function gather ::
  "int \<Rightarrow> int list list \<Rightarrow> nat \<Rightarrow> nat \<Rightarrow> int list \<Rightarrow> gstate \<Rightarrow> nat \<times> int list \<times> gstate" where
  "gather scale buckets b idx A st =
     (if b < 10 then
        let (idx1, A1, st1) = gather_bucket scale (buckets ! b) idx A st
        in gather scale buckets (b + 1) idx1 A1 st1
      else (idx, A, st))"
  by pat_completeness auto
termination
  by (relation "measure (\<lambda>(scale, buckets, b, idx, A, st). 10 - b)") auto

declare gather.simps [simp del]

lemma floor_div_pos_abs:
  "0 < \<lfloor>(of_int m :: rat) / of_int e\<rfloor> \<Longrightarrow> e \<noteq> 0 \<and> \<bar>e\<bar> \<le> \<bar>m\<bar>"
proof -
  assume a: "0 < \<lfloor>(of_int m :: rat) / of_int e\<rfloor>"
  then have d: "0 < m div e" by (simp add: floor_divide_of_int_eq)
  then have "e \<noteq> 0" by (cases "e = 0") simp_all
  moreover have "\<bar>e\<bar> \<le> \<bar>m\<bar>"
  proof (cases "0 < e")
    case True
    with d have "e \<le> m" by (simp add: pos_imp_zdiv_pos_iff)
    with True show ?thesis by simp
  next
    case False
    with \<open>e \<noteq> 0\<close> have e: "e < 0" by simp
    have "m \<le> e"
    proof (rule ccontr)
      assume "\<not> m \<le> e"
      then have "e < m" by simp
      then have "m div e \<le> 0"
        using e by (metis div_nonpos_pos_le0 div_minus_minus linorder_not_le neg_0_less_iff_less neg_imp_zdiv_nonneg_iff not_less order_less_imp_le zdiv_eq_0_iff)
      with d show False by simp
    qed
    with e show ?thesis by simp
  qed
  ultimately show ?thesis by simp
qed

function radix_loop :: "nat \<Rightarrow> int \<Rightarrow> int list \<Rightarrow> int \<Rightarrow> int \<Rightarrow> gstate \<Rightarrow> bool \<times> gstate" where
  "radix_loop n scale A max' exp' st =
     (if \<lfloor>(of_int max' :: rat) / of_int exp'\<rfloor> > 0 then
        (case scatter n A exp' 0 (replicate 10 []) st of
           (None, st1) \<Rightarrow> (False, st1)
         | (Some buckets, st1) \<Rightarrow>
             let (idx, A1, st2) = gather scale buckets 0 0 A st1
             in radix_loop n scale A1 max' (exp' * 10) st2)
      else (True, st))"
  by pat_completeness auto
termination
proof (relation "measure (\<lambda>(n, scale, A, max', exp', st). nat (\<bar>max'\<bar> - \<bar>exp'\<bar> + 1))", goal_cases)
  case 1
  show ?case by simp
next
  case (2 n scale A max' exp' st x1 x2 buckets x idx y A1 st2)
  from floor_div_pos_abs [OF 2(1)] have "exp' \<noteq> 0" and "\<bar>exp'\<bar> \<le> \<bar>max'\<bar>"
    by simp_all
  then show ?case by (simp add: abs_mult)
qed

declare radix_loop.simps [simp del]

definition radixGen :: "val list \<Rightarrow> gstate" where
  "radixGen a =
     (let n = length a;
          scale = 1000;
          A = map (\<lambda>x. \<lfloor>x * of_int scale\<rfloor>) a;
          max' = foldl (\<lambda>m v. if v > m then v else m) 0 A;
          (ok, st) = radix_loop n scale A max' 1 (initial a)
      in if ok then yield Done st else st)"


text \<open>
  The registry \<^verbatim>\<open>Algos.generators\<close>, by which the driver of \<^verbatim>\<open>app.js\<close> looks a
  generator up.
\<close>

definition generators :: "string \<Rightarrow> (val list \<Rightarrow> gstate) option" where
  "generators name =
     map_of [(''bubble'', bubbleGen), (''quick'', quickGen), (''merge'', mergeGen),
             (''heap'', heapGen), (''radix'', radixGen)] name"

section \<open>Runs as the consumer sees them\<close>

text \<open>
  \<open>in_range n i\<close>: \<open>i\<close> is an index into an array of length \<open>n\<close>. \<open>valid_step n s\<close>: every
  index the step \<open>s\<close> carries is one. \<open>apply_step\<close> is the mutation a step reports.
  \<open>yields\<close> lists what the consumer pulls, each step with the array at that moment, and
  \<open>steps_of\<close> the steps alone.

  \<open>follows a es a'\<close> reads a piece of a run that starts with the array \<open>a\<close> and ends with
  \<open>a'\<close>: no step is \<open>Done\<close>, every step is valid, and the array at each yield is the
  array before it with exactly that step applied.
\<close>

definition in_range :: "nat \<Rightarrow> int \<Rightarrow> bool" where
  "in_range n i = (0 \<le> i \<and> i < int n)"

fun valid_step :: "nat \<Rightarrow> step \<Rightarrow> bool" where
  "valid_step n (Compare a None) = in_range n a"
| "valid_step n (Compare a (Some b)) = (in_range n a \<and> in_range n b)"
| "valid_step n (Swap a b) = (in_range n a \<and> in_range n b)"
| "valid_step n (SetV i v) = in_range n i"
| "valid_step n Done = True"

fun apply_step :: "step \<Rightarrow> val list \<Rightarrow> val list" where
  "apply_step (Swap a b) xs = swap_arr xs a b"
| "apply_step (SetV i v) xs = wr xs i v"
| "apply_step (Compare a b) xs = xs"
| "apply_step Done xs = xs"

fun yields :: "event list \<Rightarrow> (step \<times> val list) list" where
  "yields [] = []"
| "yields (Yield s a # es) = (s, a) # yields es"
| "yields (Test a b # es) = yields es"
| "yields (Throw # es) = yields es"

definition steps_of :: "event list \<Rightarrow> step list" where
  "steps_of es = map fst (yields es)"

fun follows :: "val list \<Rightarrow> event list \<Rightarrow> val list \<Rightarrow> bool" where
  "follows a [] a' = (a' = a)"
| "follows a (Yield s snap # es) a' =
     (s \<noteq> Done \<and> valid_step (length a) s \<and> snap = apply_step s a \<and> follows snap es a')"
| "follows a (Test x y # es) a' = follows a es a'"
| "follows a (Throw # es) a' = follows a es a'"

text \<open>
  \<open>announced es\<close>: every comparison of element values in \<open>es\<close> is immediately preceded
  by the yield of the \<^verbatim>\<open>compare\<close> step that names the same positions (\<open>announced_from\<close>
  carries the previous event along). \<open>reported es\<close> is the other order: every yield of a
  \<^verbatim>\<open>compare\<close> step is immediately preceded by the comparison on the positions it names.
\<close>

fun announced_from :: "event option \<Rightarrow> event list \<Rightarrow> bool" where
  "announced_from prev [] = True"
| "announced_from prev (Test a b # es) =
     ((case prev of Some (Yield (Compare a' b') snap) \<Rightarrow> a' = a \<and> b' = b | _ \<Rightarrow> False) \<and>
      announced_from (Some (Test a b)) es)"
| "announced_from prev (Yield s snap # es) = announced_from (Some (Yield s snap)) es"
| "announced_from prev (Throw # es) = announced_from (Some Throw) es"

definition announced :: "event list \<Rightarrow> bool" where
  "announced es = announced_from None es"

fun reported_from :: "event option \<Rightarrow> event list \<Rightarrow> bool" where
  "reported_from prev [] = True"
| "reported_from prev (Yield s snap # es) =
     ((case s of Compare a b \<Rightarrow> prev = Some (Test a b) | _ \<Rightarrow> True) \<and>
      reported_from (Some (Yield s snap)) es)"
| "reported_from prev (Test a b # es) = reported_from (Some (Test a b)) es"
| "reported_from prev (Throw # es) = reported_from (Some Throw) es"

definition reported :: "event list \<Rightarrow> bool" where
  "reported es = reported_from None es"

text \<open>
  \<open>scan_events a passed stop\<close> is what one scan of a partition appends to the trace
  when it moves past the positions \<open>passed\<close> and stops at \<open>stop\<close>: for each position
  passed the comparison and then the \<^verbatim>\<open>compare\<close> step, for the position that ends the scan
  the comparison alone.
\<close>

definition scan_events :: "val list \<Rightarrow> int list \<Rightarrow> int \<Rightarrow> event list" where
  "scan_events a passed stop =
     concat (map (\<lambda>x. [Test x None, Yield (Compare x None) a]) passed) @ [Test stop None]"

text \<open>
  \<open>ext strict st st'\<close>: the state \<open>st'\<close> comes from \<open>st\<close> by a piece of run that
  \<open>follows\<close>; with \<open>strict\<close>, the piece moreover announces each of its comparisons.
\<close>

definition ext :: "bool \<Rightarrow> gstate \<Rightarrow> gstate \<Rightarrow> bool" where
  "ext strict st st' =
     (\<exists>seg. trace st' = trace st @ seg \<and> follows (arr st) seg (arr st') \<and>
            (strict \<longrightarrow> announced seg))"

text \<open>
  \<open>after_pulls A tr k\<close> is the shared array as the consumer finds it after pulling
  exactly \<open>k\<close> steps of the run \<open>tr\<close> that started on \<open>A\<close> (the generator is suspended at
  its \<open>k\<close>-th yield, or has not started when \<open>k = 0\<close>). \<open>replay A ss\<close> applies the
  mutations that the steps \<open>ss\<close> report to \<open>A\<close>, in order.
\<close>

definition after_pulls :: "val list \<Rightarrow> event list \<Rightarrow> nat \<Rightarrow> val list" where
  "after_pulls A tr k = (if k = 0 then A else snd (yields tr ! (k - 1)))"

definition replay :: "val list \<Rightarrow> step list \<Rightarrow> val list" where
  "replay A ss = foldl (\<lambda>a s. apply_step s a) A ss"

text \<open>
  \<open>added st st'\<close> is what a piece of code that took the state \<open>st\<close> to \<open>st'\<close> appended
  to the trace. \<open>steps_within lo hi es\<close>: every index carried by a step yielded in \<open>es\<close>
  lies in \<open>lo..hi\<close>. \<open>tests_within lo hi es\<close>: every element inspected in \<open>es\<close> lies at
  a position in \<open>lo..hi\<close>.
\<close>

fun step_indices :: "step \<Rightarrow> int list" where
  "step_indices (Compare a None) = [a]"
| "step_indices (Compare a (Some b)) = [a, b]"
| "step_indices (Swap a b) = [a, b]"
| "step_indices (SetV i v) = [i]"
| "step_indices Done = []"

definition added :: "gstate \<Rightarrow> gstate \<Rightarrow> event list" where
  "added st st' = drop (length (trace st)) (trace st')"

definition steps_within :: "int \<Rightarrow> int \<Rightarrow> event list \<Rightarrow> bool" where
  "steps_within lo hi es = (\<forall>(s, a) \<in> set (yields es). \<forall>i \<in> set (step_indices s). lo \<le> i \<and> i \<le> hi)"

definition tests_within :: "int \<Rightarrow> int \<Rightarrow> event list \<Rightarrow> bool" where
  "tests_within lo hi es = (\<forall>x y. Test x y \<in> set es \<longrightarrow> lo \<le> x \<and> x \<le> hi)"

text \<open>Invariants over the part of the trace behind a fixed position \<open>k\<close>.\<close>

definition steps_from :: "nat \<Rightarrow> int \<Rightarrow> int \<Rightarrow> gstate \<Rightarrow> bool" where
  "steps_from k lo hi st = (k \<le> length (trace st) \<and> steps_within lo hi (drop k (trace st)))"

definition tests_from :: "nat \<Rightarrow> int \<Rightarrow> int \<Rightarrow> gstate \<Rightarrow> bool" where
  "tests_from k lo hi st = (k \<le> length (trace st) \<and> tests_within lo hi (drop k (trace st)))"

text \<open>
  \<open>is_set\<close> recognises \<^verbatim>\<open>set\<close> steps. \<open>swaps_strict st\<close>: every \<^verbatim>\<open>swap\<close> step yielded so
  far exchanged two adjacent positions and left the strictly smaller element first.
\<close>

definition is_set :: "step \<Rightarrow> bool" where
  "is_set s = (case s of SetV i v \<Rightarrow> True | _ \<Rightarrow> False)"

definition swaps_strict :: "gstate \<Rightarrow> bool" where
  "swaps_strict st =
     (\<forall>x y a. Yield (Swap x y) a \<in> set (trace st) \<longrightarrow> y = x + 1 \<and> js_lt (rd a x) (rd a y))"

text \<open>
  For \<^verbatim>\<open>radixGen\<close>: \<open>scaled A\<close> is the local array \<^verbatim>\<open>A\<close> of scaled elements, \<open>pass e A\<close>
  is what one bucket pass at the digit of weight \<open>e\<close> makes of it (the buckets
  \<open>0..9\<close> concatenated, each in the order of \<open>A\<close>), and \<open>dkey e v\<close> is that digit of a
  non-negative \<open>v\<close> as a natural number.
\<close>

definition scaled :: "val list \<Rightarrow> int list" where
  "scaled A = map (\<lambda>x. \<lfloor>x * 1000\<rfloor>) A"

definition pass :: "int \<Rightarrow> int list \<Rightarrow> int list" where
  "pass e A = concat (map (\<lambda>d. filter (\<lambda>v. digit v e = int d) A) [0..<10])"

definition dkey :: "int \<Rightarrow> int \<Rightarrow> nat" where
  "dkey e v = nat (digit v e)"

text \<open>
  \<open>done_once_last st\<close>: the run recorded in \<open>st\<close> yields \<open>Done\<close> exactly once, and that
  yield is the last event of the run: the generator function returns right after it, so
  the next pull finds the sequence exhausted.
\<close>

definition done_once_last :: "gstate \<Rightarrow> bool" where
  "done_once_last st =
     (count_list (steps_of (trace st)) Done = 1 \<and> trace st \<noteq> [] \<and>
      last (trace st) = Yield Done (arr st))"

text \<open>
  Invariants of the sorting loops. For \<^verbatim>\<open>bubbleGen\<close>: \<open>tail_ok k a\<close> says that every position
  from \<open>k\<close> on holds an element that is not below any element before it (the tail from
  \<open>k\<close> is final), \<open>top_at j a\<close> that position \<open>j\<close> holds a maximum of \<open>0..j\<close>, and
  \<open>adj_sorted j a\<close> that no two neighbours below \<open>j\<close> are inverted (what a pass without a
  swap has seen). \<open>perm_within lo hi a a'\<close>: \<open>a'\<close> is \<open>a\<close> with the positions \<open>lo..hi\<close>
  permuted.
\<close>

definition tail_ok :: "nat \<Rightarrow> val list \<Rightarrow> bool" where
  "tail_ok k a = (\<forall>p q. p < q \<and> q < length a \<and> k \<le> q \<longrightarrow> a ! p \<le> a ! q)"

definition adj_sorted :: "nat \<Rightarrow> val list \<Rightarrow> bool" where
  "adj_sorted j a = (\<forall>p. p < j \<longrightarrow> a ! p \<le> a ! (p + 1))"

definition top_at :: "nat \<Rightarrow> val list \<Rightarrow> bool" where
  "top_at j a = (\<forall>p. p < j \<longrightarrow> a ! p \<le> a ! j)"

definition perm_within :: "nat \<Rightarrow> nat \<Rightarrow> val list \<Rightarrow> val list \<Rightarrow> bool" where
  "perm_within lo hi a a' =
     (length a' = length a \<and> mset a' = mset a \<and>
      (\<forall>x. x < length a \<and> (x < lo \<or> hi < x) \<longrightarrow> a' ! x = a ! x) \<and>
      (\<forall>p. lo \<le> p \<and> p \<le> hi \<and> p < length a \<longrightarrow>
           (\<exists>p'. lo \<le> p' \<and> p' \<le> hi \<and> p' < length a \<and> a' ! p = a ! p')))"

text \<open>
  For \<^verbatim>\<open>quickGen\<close>, with integer indices as in the source: \<open>elem a x\<close> is the element at
  a valid index; \<open>part_inv pv l r i j a\<close> is the invariant of the partition loop (left of
  \<open>i\<close> nothing above the pivot, right of \<open>j\<close> nothing below it); \<open>iperm l r a a'\<close> is
  \<open>perm_within\<close> on integer indices; \<open>disj stack\<close> says that the ranges on the stack are
  pairwise disjoint, and \<open>qinv stack a\<close> that they lie inside the array and that any two
  positions not both inside one pending range are already in order.
\<close>

definition elem :: "val list \<Rightarrow> int \<Rightarrow> val" where
  "elem a x = a ! nat x"

definition part_inv :: "val \<Rightarrow> int \<Rightarrow> int \<Rightarrow> int \<Rightarrow> int \<Rightarrow> val list \<Rightarrow> bool" where
  "part_inv pv l r i j a =
     ((\<forall>x. l \<le> x \<and> x < i \<longrightarrow> elem a x \<le> pv) \<and> (\<forall>x. j < x \<and> x \<le> r \<longrightarrow> pv \<le> elem a x))"

definition iperm :: "int \<Rightarrow> int \<Rightarrow> val list \<Rightarrow> val list \<Rightarrow> bool" where
  "iperm l r a a' =
     (length a' = length a \<and> mset a' = mset a \<and>
      (\<forall>x. in_range (length a) x \<and> (x < l \<or> r < x) \<longrightarrow> elem a' x = elem a x) \<and>
      (\<forall>p. l \<le> p \<and> p \<le> r \<longrightarrow> (\<exists>p'. l \<le> p' \<and> p' \<le> r \<and> elem a' p = elem a p')))"

fun disj :: "(int \<times> int) list \<Rightarrow> bool" where
  "disj [] = True"
| "disj ((l, r) # s) = ((\<forall>(l', r') \<in> set s. r < l' \<or> r' < l) \<and> disj s)"

definition qinv :: "(int \<times> int) list \<Rightarrow> val list \<Rightarrow> bool" where
  "qinv stack a =
     ((\<forall>(l, r) \<in> set stack. 0 \<le> l \<and> r < int (length a)) \<and> disj stack \<and>
      (\<forall>p q. 0 \<le> p \<and> p < q \<and> q < int (length a) \<and>
             \<not> (\<exists>(l, r) \<in> set stack. l \<le> p \<and> q \<le> r) \<longrightarrow> elem a p \<le> elem a q))"

text \<open>
  For \<^verbatim>\<open>mergeGen\<close>: \<open>merge_fn\<close> is the list that the three loops of one merge write
  (take from the left slice while its head is \<open>\<le>\<close> the head of the right one), and
  \<open>merge_drains\<close> is the two draining loops of \<^verbatim>\<open>mergeRange\<close> run after the main loop.
\<close>

fun merge_fn :: "val list \<Rightarrow> val list \<Rightarrow> val list" where
  "merge_fn [] ys = ys"
| "merge_fn xs [] = xs"
| "merge_fn (x # xs) (y # ys) =
     (if x \<le> y then x # merge_fn xs (y # ys) else y # merge_fn (x # xs) ys)"

definition merge_drains ::
  "val list \<Rightarrow> val list \<Rightarrow> nat \<times> nat \<times> int \<times> gstate \<Rightarrow> gstate" where
  "merge_drains left right q =
     (case q of (i, j, k, st1) \<Rightarrow>
        (case merge_left left i k st1 of (i', k', st2) \<Rightarrow>
           (case merge_right right j k' st2 of (j', k'', st3) \<Rightarrow> st3)))"

text \<open>
  For \<^verbatim>\<open>heapGen\<close>: \<open>node_ok e a k\<close> says that node \<open>k\<close> is not below its children, as
  far as they lie in \<open>0..e\<close>; \<open>heap_from lo e a\<close> that this holds for all nodes of
  \<open>lo..e\<close>; \<open>heap_except lo e x a\<close> is the state in the middle of \<^verbatim>\<open>siftDown\<close>: all nodes
  but \<open>x\<close> are fine, and the children of \<open>x\<close> are not above the parent of \<open>x\<close>.
  \<open>itail k a\<close> is \<open>tail_ok\<close> on integer indices.
\<close>

definition node_ok :: "int \<Rightarrow> val list \<Rightarrow> int \<Rightarrow> bool" where
  "node_ok e a k =
     ((2 * k + 1 \<le> e \<longrightarrow> elem a (2 * k + 1) \<le> elem a k) \<and>
      (2 * k + 2 \<le> e \<longrightarrow> elem a (2 * k + 2) \<le> elem a k))"

definition heap_from :: "int \<Rightarrow> int \<Rightarrow> val list \<Rightarrow> bool" where
  "heap_from lo e a = (\<forall>k. lo \<le> k \<and> k \<le> e \<longrightarrow> node_ok e a k)"

definition heap_except :: "int \<Rightarrow> int \<Rightarrow> int \<Rightarrow> val list \<Rightarrow> bool" where
  "heap_except lo e x a =
     ((\<forall>k. lo \<le> k \<and> k \<le> e \<and> k \<noteq> x \<longrightarrow> node_ok e a k) \<and>
      (\<forall>k c. lo \<le> k \<and> (x = 2 * k + 1 \<or> x = 2 * k + 2) \<and> (c = 2 * x + 1 \<or> c = 2 * x + 2) \<and> c \<le> e
             \<longrightarrow> elem a c \<le> elem a k))"

definition itail :: "int \<Rightarrow> val list \<Rightarrow> bool" where
  "itail k a = (\<forall>p q. 0 \<le> p \<and> p < q \<and> q < int (length a) \<and> k \<le> q \<longrightarrow> elem a p \<le> elem a q)"

lemma length_apply_step [simp]: "length (apply_step s xs) = length xs"
  by (cases s) simp_all

lemma follows_length: "follows a es a' \<Longrightarrow> length a' = length a"
  by (induction a es a' rule: follows.induct) auto

lemma follows_append:
  "follows a es b \<Longrightarrow> follows b es' c \<Longrightarrow> follows a (es @ es') c"
  by (induction a es b rule: follows.induct) auto

definition lastp :: "event option \<Rightarrow> event list \<Rightarrow> event option" where
  "lastp prev es = (if es = [] then prev else Some (last es))"

lemma announced_from_append:
  "announced_from prev (xs @ ys) \<longleftrightarrow> announced_from prev xs \<and> announced_from (lastp prev xs) ys"
  by (induction prev xs rule: announced_from.induct) (auto simp: lastp_def)

lemma announced_from_any: "announced_from None ys \<Longrightarrow> announced_from prev ys"
  by (cases "(prev, ys)" rule: announced_from.cases) auto

lemma announced_append: "announced xs \<Longrightarrow> announced ys \<Longrightarrow> announced (xs @ ys)"
  by (simp add: announced_def announced_from_append announced_from_any)

lemma reported_from_append:
  "reported_from prev (xs @ ys) \<longleftrightarrow> reported_from prev xs \<and> reported_from (lastp prev xs) ys"
  by (induction prev xs rule: reported_from.induct) (auto simp: lastp_def)

lemma ext_refl [simp]: "ext sm st st"
  by (simp add: ext_def announced_def)

lemma ext_follows: "ext sm st st' \<Longrightarrow> ext False st st'"
  by (auto simp: ext_def)

lemma ext_length: "ext sm st st' \<Longrightarrow> length (arr st') = length (arr st)"
  by (auto simp: ext_def dest: follows_length)

lemma ext_trans: "ext sm st st1 \<Longrightarrow> ext sm st1 st2 \<Longrightarrow> ext sm st st2"
  unfolding ext_def
proof (elim exE conjE)
  fix s1 s2
  assume a: "trace st1 = trace st @ s1" "follows (arr st) s1 (arr st1)"
    "trace st2 = trace st1 @ s2" "follows (arr st1) s2 (arr st2)"
    and b: "sm \<longrightarrow> announced s1" "sm \<longrightarrow> announced s2"
  from a have "trace st2 = trace st @ (s1 @ s2)" by simp
  moreover from a have "follows (arr st) (s1 @ s2) (arr st2)" by (blast intro: follows_append)
  moreover from b have "sm \<longrightarrow> announced (s1 @ s2)" by (simp add: announced_append)
  ultimately show "\<exists>seg. trace st2 = trace st @ seg \<and> follows (arr st) seg (arr st2) \<and>
                        (sm \<longrightarrow> announced seg)" by blast
qed

lemma ext_test: "ext False st0 st \<Longrightarrow> ext False st0 (test a b st)"
  by (rule ext_trans [where ?st1.0 = st]) (simp_all add: ext_def)

lemma ext_throw: "ext sm st0 st \<Longrightarrow> ext sm st0 (throw st)"
  by (rule ext_trans [where ?st1.0 = st]) (simp_all add: ext_def announced_def)

lemma ext_compare:
  "ext sm st0 st \<Longrightarrow> valid_step (length (arr st)) (Compare a b) \<Longrightarrow>
   ext sm st0 (yield (Compare a b) st)"
  by (rule ext_trans [where ?st1.0 = st]) (simp_all add: ext_def announced_def)

lemma ext_compare_test:
  "ext sm st0 st \<Longrightarrow> valid_step (length (arr st)) (Compare a b) \<Longrightarrow>
   ext sm st0 (test a b (yield (Compare a b) st))"
  by (rule ext_trans [where ?st1.0 = st]) (simp_all add: ext_def announced_def)

lemma ext_swap:
  "ext sm st0 st \<Longrightarrow> in_range (length (arr st)) a \<Longrightarrow> in_range (length (arr st)) b \<Longrightarrow>
   ext sm st0 (yield (Swap a b) (swap a b st))"
  by (rule ext_trans [where ?st1.0 = st]) (simp_all add: ext_def announced_def)

lemma ext_store:
  "ext sm st0 st \<Longrightarrow> in_range (length (arr st)) k \<Longrightarrow> ext sm st0 (yield (SetV k v) (store k v st))"
  by (rule ext_trans [where ?st1.0 = st]) (simp_all add: ext_def announced_def)

section \<open>Every loop of the generators extends the run by valid, faithful steps\<close>

lemma bubble_inner_ext:
  "ext sm st0 st \<Longrightarrow> 0 \<le> i \<Longrightarrow> 0 \<le> j \<Longrightarrow> n \<le> int (length (arr st)) \<Longrightarrow>
   ext sm st0 (snd (bubble_inner n i j swapped st))"
proof (induction n i j swapped st rule: bubble_inner.induct)
  case (1 n i j swapped st)
  show ?case
  proof (cases "j < n - 1 - i")
    case False
    with "1.prems" show ?thesis by (simp add: bubble_inner.simps)
  next
    case True
    let ?st1 = "test j (Some (j + 1)) (yield (Compare j (Some (j + 1))) st)"
    have r: "in_range (length (arr st)) j" "in_range (length (arr st)) (j + 1)"
      using True "1.prems" by (simp_all add: in_range_def)
    have e1: "ext sm st0 ?st1"
      using "1.prems"(1) r by (intro ext_compare_test) simp_all
    show ?thesis
    proof (cases "js_gt (rd (arr ?st1) j) (rd (arr ?st1) (j + 1))")
      case gt: True
      have "ext sm st0 (yield (Swap j (j + 1)) (swap j (j + 1) ?st1))"
        using e1 r by (intro ext_swap) simp_all
      from "1.IH"(1) [OF True refl gt this] "1.prems" True gt
      show ?thesis by (subst bubble_inner.simps) (simp add: Let_def)
    next
      case ngt: False
      from "1.IH"(2) [OF True refl ngt e1] "1.prems" True ngt
      show ?thesis by (subst bubble_inner.simps) (simp add: Let_def)
    qed
  qed
qed

lemma bubble_outer_ext:
  "ext sm st0 st \<Longrightarrow> 0 \<le> i \<Longrightarrow> n \<le> int (length (arr st)) \<Longrightarrow> ext sm st0 (bubble_outer n i st)"
proof (induction n i st rule: bubble_outer.induct)
  case (1 n i st)
  show ?case
  proof (cases "i < n")
    case False
    with "1.prems" show ?thesis by (simp add: bubble_outer.simps)
  next
    case True
    obtain sw st1 where b: "bubble_inner n i 0 False st = (sw, st1)"
      by (cases "bubble_inner n i 0 False st")
    have e1: "ext sm st0 st1"
      using bubble_inner_ext [of sm st0 st i 0 n False] "1.prems" b by simp
    have len: "length (arr st1) = length (arr st)"
      using ext_length [OF e1] ext_length [OF "1.prems"(1)] by simp
    show ?thesis
    proof (cases sw)
      case False
      with True b e1 show ?thesis by (subst bubble_outer.simps) simp
    next
      case sw: True
      from "1.IH" [OF True b [symmetric] refl _ e1] sw "1.prems" len True b
      show ?thesis by (subst bubble_outer.simps) simp
    qed
  qed
qed


lemma js_lt_in_range: "js_lt (rd a i) p \<Longrightarrow> in_range (length a) i"
  by (cases p) (auto simp: rd_def in_range_def split: if_splits)

lemma js_gt_in_range: "js_gt (rd a i) p \<Longrightarrow> in_range (length a) i"
  by (cases p) (auto simp: rd_def in_range_def js_gt_def split: if_splits)

lemma scan_left_ext: "ext False st0 st \<Longrightarrow> ext False st0 (snd (scan_left pivot i st))"
proof (induction pivot i st rule: scan_left.induct)
  case (1 pivot i st)
  let ?st1 = "test i None st"
  have e1: "ext False st0 ?st1" using "1.prems" by (rule ext_test)
  show ?case
  proof (cases "js_lt (rd (arr ?st1) i) pivot")
    case True
    then have "in_range (length (arr ?st1)) i" by (rule js_lt_in_range)
    with e1 have "ext False st0 (yield (Compare i None) ?st1)" by (intro ext_compare) simp_all
    from "1.IH" [OF refl True this] True show ?thesis
      by (subst scan_left.simps) (simp add: Let_def)
  next
    case False
    with e1 show ?thesis by (subst scan_left.simps) (simp add: Let_def)
  qed
qed

lemma scan_right_ext: "ext False st0 st \<Longrightarrow> ext False st0 (snd (scan_right pivot j st))"
proof (induction pivot j st rule: scan_right.induct)
  case (1 pivot j st)
  let ?st1 = "test j None st"
  have e1: "ext False st0 ?st1" using "1.prems" by (rule ext_test)
  show ?case
  proof (cases "js_gt (rd (arr ?st1) j) pivot")
    case True
    then have "in_range (length (arr ?st1)) j" by (rule js_gt_in_range)
    with e1 have "ext False st0 (yield (Compare j None) ?st1)" by (intro ext_compare) simp_all
    from "1.IH" [OF refl True this] True show ?thesis
      by (subst scan_right.simps) (simp add: Let_def)
  next
    case False
    with e1 show ?thesis by (subst scan_right.simps) (simp add: Let_def)
  qed
qed

lemma partition_loop_ext:
  "ext False st0 st \<Longrightarrow> 0 \<le> i \<Longrightarrow> j < int (length (arr st)) \<Longrightarrow>
   ext False st0 (snd (snd (partition_loop pivot i j st)))"
proof (induction pivot i j st rule: partition_loop.induct)
  case (1 pivot i j st)
  show ?case
  proof (cases "i \<le> j")
    case False
    with "1.prems" show ?thesis by (simp add: partition_loop.simps)
  next
    case True
    obtain i1 st1 where sl: "scan_left pivot i st = (i1, st1)" by (cases "scan_left pivot i st")
    obtain j1 st2 where sr: "scan_right pivot j st1 = (j1, st2)" by (cases "scan_right pivot j st1")
    have i1: "i \<le> i1" using scan_left_ge [of i pivot st] sl by simp
    have j1: "j1 \<le> j" using scan_right_le [of pivot j st1] sr by simp
    have e1: "ext False st0 st1" using scan_left_ext [OF "1.prems"(1), of pivot i] sl by simp
    have e2: "ext False st0 st2" using scan_right_ext [OF e1, of pivot j] sr by simp
    have len: "length (arr st2) = length (arr st)"
      using ext_length [OF e2] ext_length [OF "1.prems"(1)] by simp
    show ?thesis
    proof (cases "i1 \<le> j1")
      case le: True
      have r: "in_range (length (arr st2)) i1" "in_range (length (arr st2)) j1"
        using le i1 j1 "1.prems" len by (simp_all add: in_range_def)
      have e3: "ext False st0 (yield (Swap i1 j1) (swap i1 j1 st2))"
        using e2 r by (rule ext_swap)
      have "ext False st0 (snd (snd (partition_loop pivot (i1 + 1) (j1 - 1) (yield (Swap i1 j1) (swap i1 j1 st2)))))"
        using "1.IH"(1) [OF True sl [symmetric] refl sr [symmetric] refl le e3] i1 j1 "1.prems" len
        by simp
      then show ?thesis using True sl sr le by (subst partition_loop.simps) simp
    next
      case gt: False
      have "ext False st0 (snd (snd (partition_loop pivot i1 j1 st2)))"
        using "1.IH"(2) [OF True sl [symmetric] refl sr [symmetric] refl gt e2] i1 j1 "1.prems" len
        by simp
      then show ?thesis using True sl sr gt by (subst partition_loop.simps) simp
    qed
  qed
qed

lemma quick_loop_ext:
  "ext False st0 st \<Longrightarrow> \<forall>(l, r) \<in> set stack. 0 \<le> l \<and> r < int (length (arr st)) \<Longrightarrow>
   ext False st0 (quick_loop stack st)"
proof (induction stack st rule: quick_loop.induct)
  case (1 st)
  then show ?case by (simp add: quick_loop.simps)
next
  case (2 l r stack st)
  show ?case
  proof (cases "l \<ge> r")
    case True
    with 2 show ?thesis by (simp add: quick_loop.simps)
  next
    case False
    let ?p = "rd (arr st) ((l + r) div 2)"
    obtain i j st1 where p: "partition_loop ?p l r st = (i, j, st1)"
      by (cases "partition_loop ?p l r st")
    have lr: "0 \<le> l" "r < int (length (arr st))" using "2.prems"(2) by simp_all
    have e1: "ext False st0 st1"
      using partition_loop_ext [OF "2.prems"(1) lr, of ?p] p by simp
    have len: "length (arr st1) = length (arr st)"
      using ext_length [OF e1] ext_length [OF "2.prems"(1)] by simp
    have ij: "l \<le> i" "j \<le> r" using partition_loop_mono [OF p] by simp_all
    let ?s1 = "if l < j then (l, j) # stack else stack"
    let ?s2 = "if i < r then (i, r) # ?s1 else ?s1"
    have "\<forall>(l, r) \<in> set ?s2. 0 \<le> l \<and> r < int (length (arr st1))"
      using "2.prems"(2) ij lr len by auto
    from "2.IH"(2) [OF False refl p [symmetric] refl refl refl refl e1 this]
    show ?thesis using False p by (subst quick_loop.simps) (simp add: Let_def)
  qed
qed

lemma merge_both_ext:
  assumes "ext sm st0 st" "0 \<le> l" "k = l + int i + int j" "int (length left) = m + 1 - l"
    "m + 1 + int (length right) \<le> int (length (arr st))"
    "i \<le> length left" "j \<le> length right"
    "merge_both l m left right i j k st = (i', j', k', st')"
  shows "ext sm st0 st' \<and> k' = l + int i' + int j' \<and> i' \<le> length left \<and> j' \<le> length right"
  using assms
proof (induction l m left right i j k st rule: merge_both.induct)
  case (1 l m left right i j k st)
  show ?case
  proof (cases "i < length left \<and> j < length right")
    case False
    with "1.prems" show ?thesis by (simp add: merge_both.simps)
  next
    case True
    let ?c = "Compare (l + int i) (Some (m + 1 + int j))"
    let ?st1 = "test (l + int i) (Some (m + 1 + int j)) (yield ?c st)"
    have "valid_step (length (arr st)) ?c"
      using True "1.prems" by (simp add: in_range_def)
    then have e1: "ext sm st0 ?st1"
      using "1.prems"(1) by (intro ext_compare_test)
    have rk: "in_range (length (arr ?st1)) k"
      using True "1.prems" by (simp add: in_range_def)
    show ?thesis
    proof (cases "left ! i \<le> right ! j")
      case le: True
      let ?st2 = "yield (SetV k (left ! i)) (store k (left ! i) ?st1)"
      have e2: "ext sm st0 ?st2" using e1 rk by (rule ext_store)
      have r: "merge_both l m left right (i + 1) j (k + 1) ?st2 = (i', j', k', st')"
        using "1.prems"(8) True le by (subst (asm) merge_both.simps) (simp add: Let_def)
      show ?thesis
        using "1.IH"(1) [OF True refl le e2 _ _ _ _ _ _ r] True "1.prems" by simp
    next
      case gt: False
      let ?st2 = "yield (SetV k (right ! j)) (store k (right ! j) ?st1)"
      have e2: "ext sm st0 ?st2" using e1 rk by (rule ext_store)
      have r: "merge_both l m left right i (j + 1) (k + 1) ?st2 = (i', j', k', st')"
        using "1.prems"(8) True gt by (subst (asm) merge_both.simps) (simp add: Let_def)
      show ?thesis
        using "1.IH"(2) [OF True refl gt e2 _ _ _ _ _ _ r] True "1.prems" by simp
    qed
  qed
qed

lemma merge_left_ext:
  assumes "ext sm st0 st" "0 \<le> k" "k + int (length left - i) \<le> int (length (arr st))"
    "merge_left left i k st = (i', k', st')"
  shows "ext sm st0 st' \<and> k' = k + int (length left - i)"
  using assms
proof (induction left i k st rule: merge_left.induct)
  case (1 left i k st)
  show ?case
  proof (cases "i < length left")
    case False
    with "1.prems" show ?thesis by (simp add: merge_left.simps)
  next
    case True
    let ?st2 = "yield (SetV k (left ! i)) (store k (left ! i) st)"
    have "in_range (length (arr st)) k" using True "1.prems" by (simp add: in_range_def)
    with "1.prems"(1) have e2: "ext sm st0 ?st2" by (rule ext_store)
    have r: "merge_left left (i + 1) (k + 1) ?st2 = (i', k', st')"
      using "1.prems"(4) True by (subst (asm) merge_left.simps) simp
    show ?thesis
      using "1.IH" [OF True e2 _ _ r] True "1.prems" by simp
  qed
qed

lemma merge_right_ext:
  assumes "ext sm st0 st" "0 \<le> k" "k + int (length right - j) \<le> int (length (arr st))"
    "merge_right right j k st = (j', k', st')"
  shows "ext sm st0 st' \<and> k' = k + int (length right - j)"
  using assms
proof (induction right j k st rule: merge_right.induct)
  case (1 right j k st)
  show ?case
  proof (cases "j < length right")
    case False
    with "1.prems" show ?thesis by (simp add: merge_right.simps)
  next
    case True
    let ?st2 = "yield (SetV k (right ! j)) (store k (right ! j) st)"
    have "in_range (length (arr st)) k" using True "1.prems" by (simp add: in_range_def)
    with "1.prems"(1) have e2: "ext sm st0 ?st2" by (rule ext_store)
    have r: "merge_right right (j + 1) (k + 1) ?st2 = (j', k', st')"
      using "1.prems"(4) True by (subst (asm) merge_right.simps) simp
    show ?thesis
      using "1.IH" [OF True e2 _ _ r] True "1.prems" by simp
  qed
qed

lemma js_slice_eq:
  "0 \<le> s \<Longrightarrow> s \<le> e \<Longrightarrow> e \<le> int (length a) \<Longrightarrow>
   js_slice a s e = take (nat (e - s)) (drop (nat s) a)"
  by (simp add: js_slice_def Let_def min_def)

lemma length_js_slice:
  assumes "0 \<le> s" "s \<le> e" "e \<le> int (length a)"
  shows "int (length (js_slice a s e)) = e - s"
proof -
  obtain s' e' where se: "s = int s'" "e = int e'"
    using assms by (metis nonneg_int_cases order_trans)
  with assms have "s' \<le> e'" "e' \<le> length a" by simp_all
  then have "length (take (e' - s') (drop s' a)) = e' - s'" by simp
  then show ?thesis using assms se by (simp add: js_slice_eq)
qed

lemma merge_phase_ext:
  assumes "ext sm st0 st" "0 \<le> l" "l \<le> m" "m \<le> r" "r < int (length (arr st))"
  shows "ext sm st0 (merge_phase l m r st)"
proof -
  let ?left = "js_slice (arr st) l (m + 1)"
  let ?right = "js_slice (arr st) (m + 1) (r + 1)"
  have ll: "int (length ?left) = m + 1 - l" using assms by (simp add: length_js_slice)
  have lr: "int (length ?right) = r - m" using assms by (simp add: length_js_slice)
  obtain i j k st1 where b: "merge_both l m ?left ?right 0 0 l st = (i, j, k, st1)"
    by (cases "merge_both l m ?left ?right 0 0 l st")
  have 1: "ext sm st0 st1 \<and> k = l + int i + int j \<and> i \<le> length ?left \<and> j \<le> length ?right"
    using merge_both_ext [OF assms(1,2) _ ll _ _ _ b] lr assms by simp
  then have len1: "length (arr st1) = length (arr st)"
    using ext_length [of sm st0 st1] ext_length [OF assms(1)] by simp
  obtain i' k' st2 where c: "merge_left ?left i k st1 = (i', k', st2)"
    by (cases "merge_left ?left i k st1")
  have 2: "ext sm st0 st2 \<and> k' = k + int (length ?left - i)"
    using merge_left_ext [OF _ _ _ c, of sm st0] 1 ll lr len1 assms by simp
  then have len2: "length (arr st2) = length (arr st)"
    using ext_length [of sm st0 st2] ext_length [OF assms(1)] by simp
  obtain j' k'' st3 where d: "merge_right ?right j k' st2 = (j', k'', st3)"
    by (cases "merge_right ?right j k' st2")
  have 3: "ext sm st0 st3 \<and> k'' = k' + int (length ?right - j)"
    using merge_right_ext [OF _ _ _ d, of sm st0] 1 2 ll lr len2 assms by simp
  show ?thesis using 3 b c d by (simp add: merge_phase_def)
qed

lemma mergeRange_ext:
  "ext sm st0 st \<Longrightarrow> 0 \<le> l \<Longrightarrow> r < int (length (arr st)) \<Longrightarrow> ext sm st0 (mergeRange l r st)"
proof (induction l r st rule: mergeRange.induct)
  case (1 l r st)
  show ?case
  proof (cases "l \<ge> r")
    case True
    with "1.prems" show ?thesis by (simp add: mergeRange.simps)
  next
    case False
    let ?m = "(l + r) div 2"
    have m: "l \<le> ?m" "?m < r" using False by simp_all
    have e1: "ext sm st0 (mergeRange l ?m st)"
      using "1.IH"(1) [OF False refl "1.prems"(1,2)] m "1.prems" by simp
    have len1: "length (arr (mergeRange l ?m st)) = length (arr st)"
      using ext_length [OF e1] ext_length [OF "1.prems"(1)] by simp
    have e2: "ext sm st0 (mergeRange (?m + 1) r (mergeRange l ?m st))"
      using "1.IH"(2) [OF False refl refl e1] m "1.prems" len1 by simp
    have len2: "length (arr (mergeRange (?m + 1) r (mergeRange l ?m st))) = length (arr st)"
      using ext_length [OF e2] ext_length [OF "1.prems"(1)] by simp
    have "ext sm st0 (merge_phase l ?m r (mergeRange (?m + 1) r (mergeRange l ?m st)))"
      using merge_phase_ext [OF e2 "1.prems"(2)] m "1.prems" len2 by simp
    then show ?thesis using False by (subst mergeRange.simps) (simp add: Let_def)
  qed
qed

lemma siftDown_ext:
  "ext sm st0 st \<Longrightarrow> 0 \<le> root' \<Longrightarrow> end' < int (length (arr st)) \<Longrightarrow>
   ext sm st0 (siftDown root' end' st)"
proof (induction root' end' st rule: siftDown.induct)
  case (1 root' end' st)
  let ?child = "2 * root' + 1"
  show ?case
  proof (cases "?child > end'")
    case True
    with "1.prems" show ?thesis by (simp add: siftDown.simps)
  next
    case False
    let ?s = "test ?child (Some (?child + 1)) (yield (Compare ?child (Some (?child + 1))) st)"
    let ?pair = "if ?child + 1 \<le> end' then
                   let s = test ?child (Some (?child + 1)) (yield (Compare ?child (Some (?child + 1))) st)
                   in (if js_lt (rd (arr s) ?child) (rd (arr s) (?child + 1)) then ?child + 1 else ?child, s)
                 else (?child, st)"
    obtain child1 st1 where p: "?pair = (child1, st1)" by (cases ?pair)
    have c1: "?child \<le> child1" "child1 \<le> end'"
      using p False by (auto simp: Let_def split: if_splits)
    have e1: "ext sm st0 st1"
    proof (cases "?child + 1 \<le> end'")
      case True
      have "valid_step (length (arr st)) (Compare ?child (Some (?child + 1)))"
        using True "1.prems" by (simp add: in_range_def)
      then have "ext sm st0 ?s" using "1.prems"(1) by (intro ext_compare_test)
      with p True show ?thesis by (auto simp: Let_def split: if_splits)
    next
      case False
      with p "1.prems" show ?thesis by simp
    qed
    have len1: "length (arr st1) = length (arr st)"
      using ext_length [OF e1] ext_length [OF "1.prems"(1)] by simp
    let ?st2 = "test root' (Some child1) (yield (Compare root' (Some child1)) st1)"
    have r: "in_range (length (arr st1)) root'" "in_range (length (arr st1)) child1"
      using c1 "1.prems" len1 by (simp_all add: in_range_def)
    then have e2: "ext sm st0 ?st2" using e1 by (intro ext_compare_test) simp_all
    show ?thesis
    proof (cases "js_lt (rd (arr ?st2) root') (rd (arr ?st2) child1)")
      case lt: True
      have e3: "ext sm st0 (yield (Swap root' child1) (swap root' child1 ?st2))"
        using e2 r by (intro ext_swap) simp_all
      have "ext sm st0 (siftDown child1 end' (yield (Swap root' child1) (swap root' child1 ?st2)))"
        using "1.IH" [OF refl False refl p [symmetric] refl lt e3] c1 "1.prems" len1 by simp
      then show ?thesis using False p lt
        by (subst siftDown.simps) (simp add: Let_def del: if_split cong: if_cong)
    next
      case nlt: False
      then show ?thesis using False p e2
        by (subst siftDown.simps) (simp add: Let_def)
    qed
  qed
qed

lemma heap_build_ext:
  "ext sm st0 st \<Longrightarrow> n \<le> int (length (arr st)) \<Longrightarrow> ext sm st0 (heap_build n start st)"
proof (induction n start st rule: heap_build.induct)
  case (1 n start st)
  show ?case
  proof (cases "start \<ge> 0")
    case False
    with "1.prems" show ?thesis by (simp add: heap_build.simps)
  next
    case True
    have e1: "ext sm st0 (siftDown start (n - 1) st)"
      using siftDown_ext [OF "1.prems"(1) True, of "n - 1"] "1.prems" by simp
    have "length (arr (siftDown start (n - 1) st)) = length (arr st)"
      using ext_length [OF e1] ext_length [OF "1.prems"(1)] by simp
    with "1.IH" [OF True e1] "1.prems" True show ?thesis
      by (subst heap_build.simps) simp
  qed
qed

lemma heap_extract_ext:
  "ext sm st0 st \<Longrightarrow> end' < int (length (arr st)) \<Longrightarrow> ext sm st0 (heap_extract end' st)"
proof (induction end' st rule: heap_extract.induct)
  case (1 end' st)
  show ?case
  proof (cases "end' > 0")
    case False
    with "1.prems" show ?thesis by (simp add: heap_extract.simps)
  next
    case True
    let ?st1 = "yield (Swap 0 end') (swap 0 end' st)"
    have e1: "ext sm st0 ?st1"
      using "1.prems" True by (intro ext_swap) (auto simp: in_range_def)
    have e2: "ext sm st0 (siftDown 0 (end' - 1) ?st1)"
      using siftDown_ext [OF e1, of 0 "end' - 1"] "1.prems" by simp
    have "length (arr (siftDown 0 (end' - 1) ?st1)) = length (arr st)"
      using ext_length [OF e2] ext_length [OF "1.prems"(1)] by simp
    with "1.IH" [OF True e2] "1.prems" True show ?thesis
      by (subst heap_extract.simps) simp
  qed
qed

lemma length_concat_push:
  "d < length bs \<Longrightarrow> length (concat (bs[d := bs ! d @ [x]])) = Suc (length (concat bs))"
proof (induction bs arbitrary: d)
  case Nil
  then show ?case by simp
next
  case (Cons b bs)
  then show ?case by (cases d) simp_all
qed

lemma scatter_buckets:
  "scatter n A exp' i buckets st = (Some bs, st') \<Longrightarrow> i \<le> n \<Longrightarrow>
   length bs = length buckets \<and> length (concat bs) = length (concat buckets) + (n - i)"
proof (induction n A exp' i buckets st rule: scatter.induct)
  case (1 n A exp' i buckets st)
  show ?case
  proof (cases "i < n")
    case False
    with "1.prems" show ?thesis by (simp add: scatter.simps)
  next
    case True
    let ?ok = "i < length A \<and> 0 \<le> digit (A ! i) exp' \<and> digit (A ! i) exp' < int (length buckets)"
    have ok: ?ok
      using "1.prems"(1) True by (subst (asm) scatter.simps) (simp add: Let_def split: if_splits)
    let ?d = "nat (digit (A ! i) exp')"
    let ?st1 = "yield (Compare (int i) None) st"
    have d: "?d < length buckets" using ok by (simp add: nat_less_iff)
    have r: "scatter n A exp' (i + 1) (buckets[?d := buckets ! ?d @ [A ! i]]) ?st1 = (Some bs, st')"
      using "1.prems"(1) True ok by (subst (asm) scatter.simps) (simp add: Let_def)
    from "1.IH" [OF True refl ok refl r] True d show ?thesis
      by (simp add: length_concat_push)
  qed
qed

lemma scatter_ext:
  "ext sm st0 st \<Longrightarrow> n \<le> length (arr st) \<Longrightarrow> ext sm st0 (snd (scatter n A exp' i buckets st))"
proof (induction n A exp' i buckets st rule: scatter.induct)
  case (1 n A exp' i buckets st)
  show ?case
  proof (cases "i < n")
    case False
    with "1.prems" show ?thesis by (simp add: scatter.simps)
  next
    case True
    let ?ok = "i < length A \<and> 0 \<le> digit (A ! i) exp' \<and> digit (A ! i) exp' < int (length buckets)"
    let ?st1 = "yield (Compare (int i) None) st"
    have e1: "ext sm st0 ?st1"
      using "1.prems" True by (intro ext_compare) (simp_all add: in_range_def)
    show ?thesis
    proof (cases ?ok)
      case ok: True
      from "1.IH" [OF True refl ok refl e1] "1.prems" True ok show ?thesis
        by (subst scatter.simps) (simp add: Let_def)
    next
      case False
      then show ?thesis using True ext_throw [OF e1]
        by (subst scatter.simps) (auto simp add: Let_def)
    qed
  qed
qed

lemma gather_bucket_ext:
  "ext sm st0 st \<Longrightarrow> idx + length vs \<le> length (arr st) \<Longrightarrow>
   gather_bucket scale vs idx A st = (idx', A', st') \<Longrightarrow>
   ext sm st0 st' \<and> idx' = idx + length vs"
proof (induction vs arbitrary: idx A st)
  case Nil
  then show ?case by simp
next
  case (Cons v vs)
  let ?x = "of_int v / of_int scale :: rat"
  let ?st2 = "yield (SetV (int idx) ?x) (store (int idx) ?x st)"
  have "in_range (length (arr st)) (int idx)" using Cons.prems by (simp add: in_range_def)
  with Cons.prems(1) have e2: "ext sm st0 ?st2" by (rule ext_store)
  have "gather_bucket scale vs (idx + 1) (A[idx := v]) ?st2 = (idx', A', st')"
    using Cons.prems(3) by (simp add: Let_def)
  from Cons.IH [OF e2 _ this] Cons.prems(2) show ?case by simp
qed

lemma gather_ext:
  "ext sm st0 st \<Longrightarrow> length buckets = 10 \<Longrightarrow>
   idx + length (concat (drop b buckets)) \<le> length (arr st) \<Longrightarrow>
   ext sm st0 (snd (snd (gather scale buckets b idx A st)))"
proof (induction scale buckets b idx A st rule: gather.induct)
  case (1 scale buckets b idx A st)
  show ?case
  proof (cases "b < 10")
    case False
    with "1.prems" show ?thesis by (simp add: gather.simps)
  next
    case True
    obtain idx1 A1 st1 where g: "gather_bucket scale (buckets ! b) idx A st = (idx1, A1, st1)"
      by (cases "gather_bucket scale (buckets ! b) idx A st")
    have d: "drop b buckets = buckets ! b # drop (b + 1) buckets"
      using True "1.prems"(2) by (simp add: Cons_nth_drop_Suc)
    have 1: "ext sm st0 st1 \<and> idx1 = idx + length (buckets ! b)"
      using gather_bucket_ext [OF "1.prems"(1) _ g] "1.prems"(3) d by simp
    then have len: "length (arr st1) = length (arr st)"
      using ext_length [of sm st0 st1] ext_length [OF "1.prems"(1)] by simp
    have "ext sm st0 (snd (snd (gather scale buckets (b + 1) idx1 A1 st1)))"
      using "1.IH" [OF True g [symmetric] refl refl] 1 "1.prems" d len by simp
    then show ?thesis using True g by (subst gather.simps) simp
  qed
qed

lemma radix_loop_ext:
  "ext sm st0 st \<Longrightarrow> n \<le> length (arr st) \<Longrightarrow>
   ext sm st0 (snd (radix_loop n scale A max' exp' st))"
proof (induction n scale A max' exp' st rule: radix_loop.induct)
  case (1 n scale A max' exp' st)
  show ?case
  proof (cases "\<lfloor>(of_int max' :: rat) / of_int exp'\<rfloor> > 0")
    case False
    with "1.prems" show ?thesis by (simp add: radix_loop.simps)
  next
    case True
    obtain ob st1 where s: "scatter n A exp' 0 (replicate 10 []) st = (ob, st1)"
      by (cases "scatter n A exp' 0 (replicate 10 []) st")
    have e1: "ext sm st0 st1" using scatter_ext [OF "1.prems", of A exp' 0 "replicate 10 []"] s by simp
    have len1: "length (arr st1) = length (arr st)"
      using ext_length [OF e1] ext_length [OF "1.prems"(1)] by simp
    show ?thesis
    proof (cases ob)
      case None
      with True s e1 show ?thesis by (subst radix_loop.simps) simp
    next
      case (Some buckets)
      have b: "length buckets = 10" "length (concat buckets) = n"
        using scatter_buckets [of n A exp' 0 "replicate 10 []" st buckets st1] s Some by simp_all
      obtain idx A1 st2 where g: "gather scale buckets 0 0 A st1 = (idx, A1, st2)"
        by (cases "gather scale buckets 0 0 A st1")
      have e2: "ext sm st0 st2"
        using gather_ext [OF e1 b(1), of 0 0 scale A] b(2) g len1 "1.prems"(2) by simp
      have len2: "length (arr st2) = length (arr st)"
        using ext_length [OF e2] ext_length [OF "1.prems"(1)] by simp
      have "ext sm st0 (snd (radix_loop n scale A1 max' (exp' * 10) st2))"
        using "1.IH" [OF True s [symmetric] Some refl g [symmetric] refl e2] len2 "1.prems"(2)
        by simp
      then show ?thesis using True s Some g by (subst radix_loop.simps) simp
    qed
  qed
qed

section \<open>What a consumer of a run can rely on\<close>

lemma yields_append [simp]: "yields (xs @ ys) = yields xs @ yields ys"
  by (induction xs rule: yields.induct) simp_all

lemma steps_of_append [simp]: "steps_of (xs @ ys) = steps_of xs @ steps_of ys"
  by (simp add: steps_of_def)

lemma follows_valid:
  "follows a es a' \<Longrightarrow> (s, x) \<in> set (yields es) \<Longrightarrow> valid_step (length x) s \<and> length x = length a"
  by (induction a es a' rule: follows.induct) auto


lemma replay_Nil [simp]: "replay a [] = a"
  by (simp add: replay_def)

lemma replay_Cons [simp]: "replay a (s # ss) = replay (apply_step s a) ss"
  by (simp add: replay_def)

lemma replay_snoc [simp]: "replay a (ss @ [s]) = apply_step s (replay a ss)"
  by (simp add: replay_def)


lemma after_pulls_0 [simp]: "after_pulls a es 0 = a"
  by (simp add: after_pulls_def)

lemma after_pulls_Yield [simp]: "after_pulls a (Yield s snap # es) (Suc k) = after_pulls snap es k"
  by (cases k) (simp_all add: after_pulls_def)

lemma after_pulls_Test [simp]: "after_pulls a (Test x y # es) k = after_pulls a es k"
  by (simp add: after_pulls_def)

lemma after_pulls_Throw [simp]: "after_pulls a (Throw # es) k = after_pulls a es k"
  by (simp add: after_pulls_def)

lemma steps_of_simps [simp]:
  "steps_of [] = []"
  "steps_of (Yield s snap # es) = s # steps_of es"
  "steps_of (Test x y # es) = steps_of es"
  "steps_of (Throw # es) = steps_of es"
  by (simp_all add: steps_of_def)

lemma follows_replay:
  "follows a es a' \<Longrightarrow> k \<le> length (yields es) \<Longrightarrow>
   after_pulls a es k = replay a (take k (steps_of es))"
proof (induction a es a' arbitrary: k rule: follows.induct)
  case (1 a a')
  then show ?case by simp
next
  case (2 a s snap es a' k)
  show ?case
  proof (cases k)
    case 0
    then show ?thesis by simp
  next
    case (Suc k')
    with 2 have "after_pulls snap es k' = replay snap (take k' (steps_of es))" by auto
    with 2 Suc show ?thesis by simp
  qed
next
  case (3 a x y es a' k)
  then show ?case by simp
next
  case (4 a es a' k)
  then show ?case by simp
qed

lemma follows_no_done: "follows a es a' \<Longrightarrow> Done \<notin> set (steps_of es)"
  by (induction a es a' rule: follows.induct) auto

lemma follows_replay_all: "follows a es a' \<Longrightarrow> replay a (steps_of es) = a'"
  by (induction a es a' rule: follows.induct) auto

text \<open>The same two facts for a run that ends with the yield of \<open>Done\<close>.\<close>

lemma follows_done_replay:
  assumes "follows a es a'" "k \<le> length (yields (es @ [Yield Done a']))"
  shows "after_pulls a (es @ [Yield Done a']) k = replay a (take k (steps_of (es @ [Yield Done a'])))"
proof (cases "k \<le> length (yields es)")
  case True
  have "after_pulls a (es @ [Yield Done a']) k = after_pulls a es k"
    using True by (auto simp: after_pulls_def nth_append)
  with follows_replay [OF assms(1) True] True show ?thesis
    by (simp add: steps_of_def)
next
  case False
  with assms(2) have k: "k = Suc (length (yields es))" by simp
  then show ?thesis
    using follows_replay_all [OF assms(1)] by (simp add: after_pulls_def nth_append steps_of_def)
qed

lemma bubbleGen_run: "\<exists>st. ext True (initial A) st \<and> bubbleGen A = yield Done st"
  using bubble_outer_ext [of True "initial A" "initial A" 0 "int (length A)"]
  by (auto simp: bubbleGen_def Let_def)

lemma quickGen_run: "\<exists>st. ext False (initial A) st \<and> quickGen A = yield Done st"
  using quick_loop_ext [of "initial A" "initial A" "[(0, int (length A) - 1)]"]
  by (auto simp: quickGen_def)

lemma mergeGen_run: "\<exists>st. ext True (initial A) st \<and> mergeGen A = yield Done st"
  using mergeRange_ext [of True "initial A" "initial A" 0 "int (length A) - 1"]
  by (auto simp: mergeGen_def)

lemma heapGen_run: "\<exists>st. ext True (initial A) st \<and> heapGen A = yield Done st"
proof -
  let ?n = "int (length A)"
  let ?st1 = "heap_build ?n ((?n - 2) div 2) (initial A)"
  have e1: "ext True (initial A) ?st1" by (rule heap_build_ext) simp_all
  have "length (arr ?st1) = length A" using ext_length [OF e1] by simp
  then have "ext True (initial A) (heap_extract (?n - 1) ?st1)"
    using e1 by (intro heap_extract_ext) simp_all
  then show ?thesis by (auto simp: heapGen_def Let_def)
qed

lemma radixGen_run:
  "\<exists>st. ext True (initial A) st \<and> (radixGen A = yield Done st \<or> radixGen A = st)"
proof -
  let ?A = "map (\<lambda>x. \<lfloor>x * of_int 1000\<rfloor>) A"
  let ?m = "foldl (\<lambda>m v. if v > m then v else m) 0 ?A"
  obtain ok st where r: "radix_loop (length A) 1000 ?A ?m 1 (initial A) = (ok, st)"
    by (cases "radix_loop (length A) 1000 ?A ?m 1 (initial A)")
  have "ext True (initial A) st"
    using radix_loop_ext [of True "initial A" "initial A" "length A" 1000 ?A ?m 1] r by simp
  then show ?thesis using r by (auto simp: radixGen_def Let_def)
qed

lemma generators_cases:
  "generators name = Some g \<Longrightarrow>
   g = bubbleGen \<or> g = quickGen \<or> g = mergeGen \<or> g = heapGen \<or> g = radixGen"
  by (auto simp: generators_def split: if_splits)

lemma generators_run:
  assumes "generators name = Some g"
  shows "\<exists>st. ext False (initial A) st \<and> (g A = yield Done st \<or> g A = st)"
  using generators_cases [OF assms] bubbleGen_run [of A] quickGen_run [of A] mergeGen_run [of A]
    heapGen_run [of A] radixGen_run [of A]
  by (blast intro: ext_follows)

lemma steps_from_test: "steps_from k lo hi st \<Longrightarrow> steps_from k lo hi (test a b st)"
  by (auto simp: steps_from_def steps_within_def)

lemma steps_from_yield:
  "steps_from k lo hi st \<Longrightarrow> \<forall>i \<in> set (step_indices s). lo \<le> i \<and> i \<le> hi \<Longrightarrow>
   steps_from k lo hi (yield s st)"
  by (auto simp: steps_from_def steps_within_def)

lemma steps_from_swap [simp]: "steps_from k lo hi (swap a b st) = steps_from k lo hi st"
  by (simp add: steps_from_def)

lemma siftDown_steps_from:
  "steps_from k lo end' st \<Longrightarrow> 0 \<le> lo \<Longrightarrow> lo \<le> root' \<Longrightarrow>
   steps_from k lo end' (siftDown root' end' st)"
proof (induction root' end' st rule: siftDown.induct)
  case (1 root' end' st)
  let ?child = "2 * root' + 1"
  show ?case
  proof (cases "?child > end'")
    case True
    with "1.prems" show ?thesis by (simp add: siftDown.simps)
  next
    case False
    let ?pair = "if ?child + 1 \<le> end' then
                   let s = test ?child (Some (?child + 1)) (yield (Compare ?child (Some (?child + 1))) st)
                   in (if js_lt (rd (arr s) ?child) (rd (arr s) (?child + 1)) then ?child + 1 else ?child, s)
                 else (?child, st)"
    obtain child1 st1 where p: "?pair = (child1, st1)" by (cases ?pair)
    have c1: "?child \<le> child1" "child1 \<le> end'"
      using p False by (auto simp: Let_def split: if_splits)
    have e1: "steps_from k lo end' st1"
    proof (cases "?child + 1 \<le> end'")
      case True
      have "steps_from k lo end'
              (test ?child (Some (?child + 1)) (yield (Compare ?child (Some (?child + 1))) st))"
        using True "1.prems" by (intro steps_from_test steps_from_yield) auto
      with p True show ?thesis by (auto simp: Let_def split: if_splits)
    next
      case False
      with p "1.prems" show ?thesis by simp
    qed
    let ?st2 = "test root' (Some child1) (yield (Compare root' (Some child1)) st1)"
    have r: "lo \<le> root'" "root' \<le> end'" "lo \<le> child1"
      using c1 "1.prems" by simp_all
    then have e2: "steps_from k lo end' ?st2"
      using e1 c1 by (intro steps_from_test steps_from_yield) auto
    show ?thesis
    proof (cases "js_lt (rd (arr ?st2) root') (rd (arr ?st2) child1)")
      case lt: True
      have e3: "steps_from k lo end' (yield (Swap root' child1) (swap root' child1 ?st2))"
        using e2 r c1 by (intro steps_from_yield) auto
      have "steps_from k lo end' (siftDown child1 end' (yield (Swap root' child1) (swap root' child1 ?st2)))"
        using "1.IH" [OF refl False refl p [symmetric] refl lt e3] r "1.prems" by simp
      then show ?thesis using False p lt
        by (subst siftDown.simps) (simp add: Let_def del: if_split cong: if_cong)
    next
      case nlt: False
      then show ?thesis using False p e2
        by (subst siftDown.simps) (simp add: Let_def)
    qed
  qed
qed

lemma siftDown_steps_within:
  assumes "0 \<le> root'"
  shows "steps_within root' end' (added st (siftDown root' end' st))"
proof -
  have "steps_from (length (trace st)) root' end' st"
    by (simp add: steps_from_def steps_within_def)
  from siftDown_steps_from [OF this assms order_refl]
  show ?thesis by (simp add: steps_from_def added_def)
qed

lemma tests_from_test:
  "tests_from k lo hi st \<Longrightarrow> lo \<le> a \<Longrightarrow> a \<le> hi \<Longrightarrow> tests_from k lo hi (test a b st)"
  by (auto simp: tests_from_def tests_within_def)

lemma tests_from_yield: "tests_from k lo hi st \<Longrightarrow> tests_from k lo hi (yield s st)"
  by (auto simp: tests_from_def tests_within_def)

lemma tests_from_swap [simp]: "tests_from k lo hi (swap a b st) = tests_from k lo hi st"
  by (simp add: tests_from_def)

lemma scan_left_tests:
  "tests_from k l r st \<Longrightarrow> l \<le> i \<Longrightarrow> i \<le> s \<Longrightarrow> s \<le> r \<Longrightarrow> \<not> js_lt (rd (arr st) s) pivot \<Longrightarrow>
   tests_from k l r (snd (scan_left pivot i st))"
proof (induction pivot i st rule: scan_left.induct)
  case (1 pivot i st)
  let ?st1 = "test i None st"
  have e1: "tests_from k l r ?st1" using "1.prems" by (intro tests_from_test) simp_all
  show ?case
  proof (cases "js_lt (rd (arr ?st1) i) pivot")
    case True
    with "1.prems" have "i \<noteq> s" by auto
    with "1.prems" have "i + 1 \<le> s" by simp
    from "1.IH" [OF refl True tests_from_yield [OF e1] _ this] "1.prems" True show ?thesis
      by (subst scan_left.simps) (simp add: Let_def)
  next
    case False
    with e1 show ?thesis by (subst scan_left.simps) (simp add: Let_def)
  qed
qed

lemma scan_right_tests:
  "tests_from k l r st \<Longrightarrow> j \<le> r \<Longrightarrow> s \<le> j \<Longrightarrow> l \<le> s \<Longrightarrow> \<not> js_gt (rd (arr st) s) pivot \<Longrightarrow>
   tests_from k l r (snd (scan_right pivot j st))"
proof (induction pivot j st rule: scan_right.induct)
  case (1 pivot j st)
  let ?st1 = "test j None st"
  have e1: "tests_from k l r ?st1" using "1.prems" by (intro tests_from_test) simp_all
  show ?case
  proof (cases "js_gt (rd (arr ?st1) j) pivot")
    case True
    with "1.prems" have "j \<noteq> s" by auto
    with "1.prems" have "s \<le> j - 1" by simp
    from "1.IH" [OF refl True tests_from_yield [OF e1] _ this] "1.prems" True show ?thesis
      by (subst scan_right.simps) (simp add: Let_def)
  next
    case False
    with e1 show ?thesis by (subst scan_right.simps) (simp add: Let_def)
  qed
qed

lemma scan_left_stopped: "\<not> js_lt (rd (arr st) (fst (scan_left pivot i st))) pivot"
proof (induction pivot i st rule: scan_left.induct)
  case (1 pivot i st)
  show ?case
  proof (cases "js_lt (rd (arr (test i None st)) i) pivot")
    case True
    with 1 show ?thesis by (subst scan_left.simps) (simp add: Let_def)
  next
    case False
    then show ?thesis by (subst scan_left.simps) (simp add: Let_def)
  qed
qed

lemma scan_right_stopped: "\<not> js_gt (rd (arr st) (fst (scan_right pivot j st))) pivot"
proof (induction pivot j st rule: scan_right.induct)
  case (1 pivot j st)
  show ?case
  proof (cases "js_gt (rd (arr (test j None st)) j) pivot")
    case True
    with 1 show ?thesis by (subst scan_right.simps) (simp add: Let_def)
  next
    case False
    then show ?thesis by (subst scan_right.simps) (simp add: Let_def)
  qed
qed

lemma rd_swap_arr:
  "in_range (length a) i \<Longrightarrow> in_range (length a) j \<Longrightarrow>
   rd (swap_arr a i j) x = (if x = i then rd a j else if x = j then rd a i else rd a x)"
  by (auto simp: swap_arr_def rd_def wr_def in_range_def nth_list_update nat_eq_iff)

lemma partition_loop_tests:
  assumes "tests_from k l r st" "0 \<le> l" "r < int (length (arr st))" "l \<le> i" "j \<le> r"
    "i \<le> j \<longrightarrow> (\<exists>s. i \<le> s \<and> s \<le> r \<and> \<not> js_lt (rd (arr st) s) pivot)"
    "i \<le> j \<longrightarrow> (\<exists>s. l \<le> s \<and> s \<le> j \<and> \<not> js_gt (rd (arr st) s) pivot)"
  shows "tests_from k l r (snd (snd (partition_loop pivot i j st)))"
  using assms
proof (induction pivot i j st rule: partition_loop.induct)
  case (1 pivot i j st)
  show ?case
  proof (cases "i \<le> j")
    case False
    with "1.prems" show ?thesis by (simp add: partition_loop.simps)
  next
    case True
    obtain s1 where s1: "i \<le> s1" "s1 \<le> r" "\<not> js_lt (rd (arr st) s1) pivot"
      using "1.prems"(6) True by blast
    obtain s2 where s2: "l \<le> s2" "s2 \<le> j" "\<not> js_gt (rd (arr st) s2) pivot"
      using "1.prems"(7) True by blast
    obtain i1 st1 where sl: "scan_left pivot i st = (i1, st1)" by (cases "scan_left pivot i st")
    obtain j1 st2 where sr: "scan_right pivot j st1 = (j1, st2)" by (cases "scan_right pivot j st1")
    have a1: "arr st1 = arr st" using scan_left_arr [of pivot i st] sl by simp
    have a2: "arr st2 = arr st" using scan_right_arr [of pivot j st1] sr a1 by simp
    have i1: "i \<le> i1" using scan_left_ge [of i pivot st] sl by simp
    have j1: "j1 \<le> j" using scan_right_le [of pivot j st1] sr by simp
    have t1: "tests_from k l r st1"
      using scan_left_tests [OF "1.prems"(1,4) s1] sl by simp
    have t2: "tests_from k l r st2"
      using scan_right_tests [of k l r st1 j s2 pivot] t1 "1.prems"(5) s2 a1 sr by simp
    have stop1: "\<not> js_lt (rd (arr st) i1) pivot" using scan_left_stopped [of st pivot i] sl by simp
    have stop2: "\<not> js_gt (rd (arr st) j1) pivot"
      using scan_right_stopped [of st1 pivot j] sr a1 by simp
    show ?thesis
    proof (cases "i1 \<le> j1")
      case le: True
      let ?st3 = "yield (Swap i1 j1) (swap i1 j1 st2)"
      have r: "in_range (length (arr st)) i1" "in_range (length (arr st)) j1"
        using le i1 j1 "1.prems" by (simp_all add: in_range_def)
      have t3: "tests_from k l r ?st3" using t2 by (simp add: tests_from_yield)
      have hi: "i1 + 1 \<le> j1 - 1 \<longrightarrow> (\<exists>s. i1 + 1 \<le> s \<and> s \<le> r \<and> \<not> js_lt (rd (arr ?st3) s) pivot)"
      proof
        assume "i1 + 1 \<le> j1 - 1"
        then have "i1 + 1 \<le> j1 \<and> j1 \<le> r \<and> \<not> js_lt (rd (arr ?st3) j1) pivot"
          using j1 "1.prems"(5) stop1 r a2 by (simp add: rd_swap_arr)
        then show "\<exists>s. i1 + 1 \<le> s \<and> s \<le> r \<and> \<not> js_lt (rd (arr ?st3) s) pivot" by blast
      qed
      have lo: "i1 + 1 \<le> j1 - 1 \<longrightarrow> (\<exists>s. l \<le> s \<and> s \<le> j1 - 1 \<and> \<not> js_gt (rd (arr ?st3) s) pivot)"
      proof
        assume "i1 + 1 \<le> j1 - 1"
        then have "l \<le> i1 \<and> i1 \<le> j1 - 1 \<and> \<not> js_gt (rd (arr ?st3) i1) pivot"
          using i1 "1.prems"(4) stop2 r a2 by (simp add: rd_swap_arr)
        then show "\<exists>s. l \<le> s \<and> s \<le> j1 - 1 \<and> \<not> js_gt (rd (arr ?st3) s) pivot" by blast
      qed
      have "tests_from k l r (snd (snd (partition_loop pivot (i1 + 1) (j1 - 1) ?st3)))"
        using "1.IH"(1) [OF True sl [symmetric] refl sr [symmetric] refl le t3 "1.prems"(2) _ _ _ hi lo]
          i1 j1 "1.prems" a2 by simp
      then show ?thesis using True sl sr le by (subst partition_loop.simps) simp
    next
      case gt: False
      have "tests_from k l r (snd (snd (partition_loop pivot i1 j1 st2)))"
        using "1.IH"(2) [OF True sl [symmetric] refl sr [symmetric] refl gt t2 "1.prems"(2)]
          i1 j1 "1.prems" a2 gt by simp
      then show ?thesis using True sl sr gt by (subst partition_loop.simps) simp
    qed
  qed
qed

lemma partition_tests_within:
  assumes "0 \<le> l" "l < r" "r < int (length (arr st))"
  shows "tests_within l r
           (added st (snd (snd (partition_loop (rd (arr st) ((l + r) div 2)) l r st))))"
proof -
  let ?m = "(l + r) div 2"
  have m: "l \<le> ?m" "?m \<le> r" using assms(2) by simp_all
  have t: "tests_from (length (trace st)) l r st"
    by (simp add: tests_from_def tests_within_def)
  have "tests_from (length (trace st)) l r
          (snd (snd (partition_loop (rd (arr st) ?m) l r st)))"
  proof (rule partition_loop_tests [OF t assms(1,3) order_refl order_refl])
    show "l \<le> r \<longrightarrow> (\<exists>s\<ge>l. s \<le> r \<and> \<not> js_lt (rd (arr st) s) (rd (arr st) ?m))"
      using m by (intro impI exI [of _ ?m]) simp
    show "l \<le> r \<longrightarrow> (\<exists>s\<ge>l. s \<le> r \<and> \<not> js_gt (rd (arr st) s) (rd (arr st) ?m))"
      using m by (intro impI exI [of _ ?m]) (simp add: js_gt_def)
  qed
  then show ?thesis by (simp add: tests_from_def added_def)
qed

lemma yields_mem: "(s, a) \<in> set (yields es) \<longleftrightarrow> Yield s a \<in> set es"
  by (induction es rule: yields.induct) auto

section \<open>bubbleGen exchanges only strict inversions\<close>

lemma swaps_strict_test [simp]: "swaps_strict (test a b st) = swaps_strict st"
  by (auto simp: swaps_strict_def)

lemma swaps_strict_compare [simp]: "swaps_strict (yield (Compare a b) st) = swaps_strict st"
  by (auto simp: swaps_strict_def)

lemma swaps_strict_done [simp]: "swaps_strict (yield Done st) = swaps_strict st"
  by (auto simp: swaps_strict_def)

lemma swaps_strict_swap:
  "swaps_strict st \<Longrightarrow> js_gt (rd (arr st) j) (rd (arr st) (j + 1)) \<Longrightarrow>
   swaps_strict (yield (Swap j (j + 1)) (swap j (j + 1) st))"
proof -
  assume a: "swaps_strict st" and g: "js_gt (rd (arr st) j) (rd (arr st) (j + 1))"
  have r: "in_range (length (arr st)) j" "in_range (length (arr st)) (j + 1)"
    using g js_gt_in_range [of "arr st" j] js_lt_in_range [of "arr st" "j + 1"]
    by (simp_all add: js_gt_def)
  from g have "js_lt (rd (swap_arr (arr st) j (j + 1)) j) (rd (swap_arr (arr st) j (j + 1)) (j + 1))"
    by (simp add: rd_swap_arr [OF r] js_gt_def)
  with a show ?thesis by (auto simp: swaps_strict_def)
qed

lemma bubble_inner_swaps:
  "swaps_strict st \<Longrightarrow> swaps_strict (snd (bubble_inner n i j swapped st))"
proof (induction n i j swapped st rule: bubble_inner.induct)
  case (1 n i j swapped st)
  show ?case
  proof (cases "j < n - 1 - i")
    case False
    with "1.prems" show ?thesis by (simp add: bubble_inner.simps)
  next
    case True
    let ?st1 = "test j (Some (j + 1)) (yield (Compare j (Some (j + 1))) st)"
    have e1: "swaps_strict ?st1" using "1.prems" by simp
    show ?thesis
    proof (cases "js_gt (rd (arr ?st1) j) (rd (arr ?st1) (j + 1))")
      case gt: True
      from "1.IH"(1) [OF True refl gt swaps_strict_swap [OF e1 gt]] True gt
      show ?thesis by (subst bubble_inner.simps) (simp add: Let_def)
    next
      case ngt: False
      from "1.IH"(2) [OF True refl ngt e1] True ngt
      show ?thesis by (subst bubble_inner.simps) (simp add: Let_def)
    qed
  qed
qed

lemma bubble_outer_swaps:
  "swaps_strict st \<Longrightarrow> swaps_strict (bubble_outer n i st)"
proof (induction n i st rule: bubble_outer.induct)
  case (1 n i st)
  show ?case
  proof (cases "i < n")
    case False
    with "1.prems" show ?thesis by (simp add: bubble_outer.simps)
  next
    case True
    obtain sw st1 where b: "bubble_inner n i 0 False st = (sw, st1)"
      by (cases "bubble_inner n i 0 False st")
    have e1: "swaps_strict st1"
      using bubble_inner_swaps [OF "1.prems", of n i 0 False] b by simp
    show ?thesis
    proof (cases sw)
      case False
      with True b e1 show ?thesis by (subst bubble_outer.simps) simp
    next
      case sw: True
      from "1.IH" [OF True b [symmetric] refl _ e1] sw True b
      show ?thesis by (subst bubble_outer.simps) simp
    qed
  qed
qed

lemma bubbleGen_swaps: "swaps_strict (bubbleGen A)"
  using bubble_outer_swaps [of "initial A" "int (length A)" 0]
  by (simp add: bubbleGen_def Let_def swaps_strict_def)

section \<open>Runs on arrays with at most one element, and on arrays that scale to zero\<close>

lemma bubble_small: "length A \<le> 1 \<Longrightarrow> bubbleGen A = yield Done (initial A)"
  by (simp add: bubbleGen_def Let_def bubble_outer.simps [of "int (length A)" 0]
      bubble_inner.simps [of "int (length A)" 0 0])

lemma quick_small: "length A \<le> 1 \<Longrightarrow> quickGen A = yield Done (initial A)"
  by (simp add: quickGen_def quick_loop.simps)

lemma merge_small: "length A \<le> 1 \<Longrightarrow> mergeGen A = yield Done (initial A)"
  by (simp add: mergeGen_def mergeRange.simps)

lemma heap_small: "length A \<le> 1 \<Longrightarrow> heapGen A = yield Done (initial A)"
proof -
  assume a: "length A \<le> 1"
  then have d: "(int (length A) - 2) div 2 = - 1"
    by (cases A) (simp_all add: )
  show ?thesis using a
    by (simp add: heapGen_def Let_def d heap_build.simps [of _ "- 1"] heap_extract.simps [of "int (length A) - 1"])
qed

lemma foldl_max_nonpos:
  "\<forall>v \<in> set vs. v \<le> (0 :: int) \<Longrightarrow> foldl (\<lambda>m v. if v > m then v else m) 0 vs = 0"
  by (induction vs) simp_all

lemma radix_zero:
  assumes "\<forall>x \<in> set A. \<lfloor>x * 1000\<rfloor> \<le> 0"
  shows "radixGen A = yield Done (initial A)"
proof -
  have "foldl (\<lambda>m v. if v > m then v else m) 0 (map (\<lambda>x. \<lfloor>x * 1000\<rfloor>) A) = 0"
    using assms by (intro foldl_max_nonpos) auto
  then show ?thesis
    by (simp add: radixGen_def Let_def radix_loop.simps)
qed

lemma trace_done_initial [simp]: "trace (yield Done (initial A)) = [Yield Done A]"
  by simp

section \<open>Where the compare steps stand relative to the comparisons\<close>

lemma run_announced:
  assumes "ext True (initial A) st"
  shows "announced (trace (yield Done st))"
proof -
  from assms have "announced (trace st)" by (simp add: ext_def)
  then show ?thesis by (simp add: announced_def announced_from_append)
qed

lemma reported_test: "reported (trace st) \<Longrightarrow> reported (trace (test a b st))"
  by (simp add: reported_def reported_from_append)

lemma reported_test_compare:
  "reported (trace st) \<Longrightarrow> reported (trace (yield (Compare a b) (test a b st)))"
  by (simp add: reported_def reported_from_append lastp_def)

lemma reported_swap:
  "reported (trace st) \<Longrightarrow> reported (trace (yield (Swap a b) (swap a b st)))"
  by (simp add: reported_def reported_from_append)

lemma reported_done: "reported (trace st) \<Longrightarrow> reported (trace (yield Done st))"
  by (simp add: reported_def reported_from_append)

lemma scan_left_reported:
  "reported (trace st) \<Longrightarrow> reported (trace (snd (scan_left pivot i st)))"
proof (induction pivot i st rule: scan_left.induct)
  case (1 pivot i st)
  let ?st1 = "test i None st"
  show ?case
  proof (cases "js_lt (rd (arr ?st1) i) pivot")
    case True
    from "1.IH" [OF refl True reported_test_compare [OF "1.prems"]] True show ?thesis
      by (subst scan_left.simps) (simp add: Let_def)
  next
    case False
    with reported_test [OF "1.prems"] show ?thesis
      by (subst scan_left.simps) (simp add: Let_def)
  qed
qed

lemma scan_right_reported:
  "reported (trace st) \<Longrightarrow> reported (trace (snd (scan_right pivot j st)))"
proof (induction pivot j st rule: scan_right.induct)
  case (1 pivot j st)
  let ?st1 = "test j None st"
  show ?case
  proof (cases "js_gt (rd (arr ?st1) j) pivot")
    case True
    from "1.IH" [OF refl True reported_test_compare [OF "1.prems"]] True show ?thesis
      by (subst scan_right.simps) (simp add: Let_def)
  next
    case False
    with reported_test [OF "1.prems"] show ?thesis
      by (subst scan_right.simps) (simp add: Let_def)
  qed
qed

lemma partition_loop_reported:
  "reported (trace st) \<Longrightarrow> reported (trace (snd (snd (partition_loop pivot i j st))))"
proof (induction pivot i j st rule: partition_loop.induct)
  case (1 pivot i j st)
  show ?case
  proof (cases "i \<le> j")
    case False
    with "1.prems" show ?thesis by (simp add: partition_loop.simps)
  next
    case True
    obtain i1 st1 where sl: "scan_left pivot i st = (i1, st1)" by (cases "scan_left pivot i st")
    obtain j1 st2 where sr: "scan_right pivot j st1 = (j1, st2)" by (cases "scan_right pivot j st1")
    have e1: "reported (trace st1)" using scan_left_reported [OF "1.prems", of pivot i] sl by simp
    have e2: "reported (trace st2)" using scan_right_reported [OF e1, of pivot j] sr by simp
    show ?thesis
    proof (cases "i1 \<le> j1")
      case le: True
      from "1.IH"(1) [OF True sl [symmetric] refl sr [symmetric] refl le reported_swap [OF e2]]
      show ?thesis using True sl sr le by (subst partition_loop.simps) simp
    next
      case gt: False
      from "1.IH"(2) [OF True sl [symmetric] refl sr [symmetric] refl gt e2]
      show ?thesis using True sl sr gt by (subst partition_loop.simps) simp
    qed
  qed
qed

lemma quick_loop_reported:
  "reported (trace st) \<Longrightarrow> reported (trace (quick_loop stack st))"
proof (induction stack st rule: quick_loop.induct)
  case (1 st)
  then show ?case by (simp add: quick_loop.simps)
next
  case (2 l r stack st)
  show ?case
  proof (cases "l \<ge> r")
    case True
    with 2 show ?thesis by (simp add: quick_loop.simps)
  next
    case False
    let ?p = "rd (arr st) ((l + r) div 2)"
    obtain i j st1 where p: "partition_loop ?p l r st = (i, j, st1)"
      by (cases "partition_loop ?p l r st")
    have e1: "reported (trace st1)"
      using partition_loop_reported [OF "2.prems", of ?p l r] p by simp
    from "2.IH"(2) [OF False refl p [symmetric] refl refl refl refl e1]
    show ?thesis using False p by (subst quick_loop.simps) (simp add: Let_def)
  qed
qed

lemma quickGen_reported: "reported (trace (quickGen A))"
  unfolding quickGen_def
  by (intro reported_done quick_loop_reported) (simp add: reported_def)

lemma scan_left_added:
  "added st (snd (scan_left pivot i st)) =
     scan_events (arr st) [i..fst (scan_left pivot i st) - 1] (fst (scan_left pivot i st))"
proof -
  have "trace (snd (scan_left pivot i st)) =
          trace st @ scan_events (arr st) [i..fst (scan_left pivot i st) - 1] (fst (scan_left pivot i st))"
  proof (induction pivot i st rule: scan_left.induct)
    case (1 pivot i st)
    let ?st1 = "test i None st"
    show ?case
    proof (cases "js_lt (rd (arr ?st1) i) pivot")
      case True
      let ?st2 = "yield (Compare i None) ?st1"
      let ?i' = "fst (scan_left pivot (i + 1) ?st2)"
      have ge: "i + 1 \<le> ?i'" by (rule scan_left_ge)
      then have u: "[i..?i' - 1] = i # [i + 1..?i' - 1]" by (simp add: upto_rec1)
      have eq: "scan_left pivot i st = scan_left pivot (i + 1) ?st2"
        using True by (subst scan_left.simps) (simp add: Let_def)
      from "1.IH" [OF refl True] show ?thesis
        unfolding eq u by (simp add: scan_events_def)
    next
      case False
      then have eq: "scan_left pivot i st = (i, ?st1)"
        by (subst scan_left.simps) (simp add: Let_def)
      show ?thesis unfolding eq by (simp add: scan_events_def)
    qed
  qed
  then show ?thesis by (simp add: added_def)
qed

lemma scan_right_added:
  "added st (snd (scan_right pivot j st)) =
     scan_events (arr st) (rev [fst (scan_right pivot j st) + 1..j]) (fst (scan_right pivot j st))"
proof -
  have "trace (snd (scan_right pivot j st)) =
          trace st @ scan_events (arr st) (rev [fst (scan_right pivot j st) + 1..j]) (fst (scan_right pivot j st))"
  proof (induction pivot j st rule: scan_right.induct)
    case (1 pivot j st)
    let ?st1 = "test j None st"
    show ?case
    proof (cases "js_gt (rd (arr ?st1) j) pivot")
      case True
      let ?st2 = "yield (Compare j None) ?st1"
      let ?j' = "fst (scan_right pivot (j - 1) ?st2)"
      have le: "?j' \<le> j - 1" by (rule scan_right_le)
      then have u: "[?j' + 1..j] = [?j' + 1..j - 1] @ [j]" by (simp add: upto_rec2)
      have eq: "scan_right pivot j st = scan_right pivot (j - 1) ?st2"
        using True by (subst scan_right.simps) (simp add: Let_def)
      from "1.IH" [OF refl True] show ?thesis
        unfolding eq u by (simp add: scan_events_def)
    next
      case False
      then have eq: "scan_right pivot j st = (j, ?st1)"
        by (subst scan_right.simps) (simp add: Let_def)
      show ?thesis unfolding eq by (simp add: scan_events_def)
    qed
  qed
  then show ?thesis by (simp add: added_def)
qed

section \<open>What radixGen computes\<close>

lemma digit_nonneg:
  assumes "0 \<le> v" "0 < e"
  shows "digit v e = (v div e) mod 10"
proof -
  let ?x = "(of_int v :: rat) / of_int e"
  have x0: "0 \<le> ?x / 10" using assms by simp
  have f1: "\<lfloor>?x\<rfloor> = v div e" by (simp add: floor_divide_of_int_eq)
  have "?x / 10 = of_int v / of_int (e * 10)" by simp
  then have "\<lfloor>?x / 10\<rfloor> = v div (e * 10)" by (simp only: floor_divide_of_int_eq)
  also have "\<dots> = (v div e) div 10" using assms by (simp add: zdiv_zmult2_eq)
  finally have f2: "\<lfloor>?x / 10\<rfloor> = (v div e) div 10" .
  have "js_rem ?x 10 = ?x - 10 * of_int ((v div e) div 10)"
    using x0 f2 by (simp add: js_rem_def)
  then have "digit v e = \<lfloor>?x - of_int (10 * ((v div e) div 10))\<rfloor>"
    by (simp add: digit_def)
  also have "\<dots> = \<lfloor>?x\<rfloor> - 10 * ((v div e) div 10)"
    by (simp only: floor_diff_of_int)
  also have "\<dots> = (v div e) mod 10" using f1 by (simp add: minus_mult_div_eq_mod)
  finally show ?thesis .
qed

lemma digit_range: "0 \<le> v \<Longrightarrow> 0 < e \<Longrightarrow> 0 \<le> digit v e \<and> digit v e < 10"
  by (simp add: digit_nonneg)

lemma filter_concat_buckets:
  "distinct ds \<Longrightarrow>
   filter (\<lambda>v. f v = k) (concat (map (\<lambda>d. filter (\<lambda>v. f v = d) A) ds)) =
     (if k \<in> set ds then filter (\<lambda>v. f v = k) A else [])"
proof (induction ds)
  case Nil
  then show ?case by simp
next
  case (Cons d ds)
  have "filter (\<lambda>v. f v = k) (filter (\<lambda>v. f v = d) A) = (if k = d then filter (\<lambda>v. f v = k) A else [])"
    by (auto simp: filter_empty_conv intro: filter_cong)
  with Cons show ?case by auto
qed

lemma mset_concat_buckets:
  "distinct ds \<Longrightarrow>
   mset (concat (map (\<lambda>d. filter (\<lambda>v. f v = d) A) ds)) = mset (filter (\<lambda>v. f v \<in> set ds) A)"
proof (induction ds)
  case Nil
  then show ?case by simp
next
  case (Cons d ds)
  then have "mset (concat (map (\<lambda>d. filter (\<lambda>v. f v = d) A) (d # ds))) =
               filter_mset (\<lambda>v. f v = d) (mset A) + filter_mset (\<lambda>v. f v \<in> set ds) (mset A)"
    by simp
  also have "\<dots> = filter_mset (\<lambda>v. f v = d \<or> f v \<in> set ds) (mset A)"
    using Cons.prems by (intro multiset_eqI) (auto simp: count_filter_mset)
  finally show ?case by simp
qed

lemma sorted_concat_buckets:
  "sorted ds \<Longrightarrow> sorted (map f (concat (map (\<lambda>d. filter (\<lambda>v. f v = d) A) ds)))"
proof (induction ds)
  case Nil
  then show ?case by simp
next
  case (Cons d ds)
  have "sorted (map f (filter (\<lambda>v. f v = d) A))"
    by (induction A) auto
  with Cons show ?case by (auto simp: sorted_append)
qed

lemma pass_dkey:
  assumes "\<forall>v \<in> set A. 0 \<le> v" "0 < e"
  shows "pass e A = concat (map (\<lambda>d. filter (\<lambda>v. dkey e v = d) A) [0..<10])"
proof -
  have "\<And>d. filter (\<lambda>v. digit v e = int d) A = filter (\<lambda>v. dkey e v = d) A"
    using assms digit_range [of _ e] by (intro filter_cong) (auto simp: dkey_def)
  then show ?thesis by (simp add: pass_def)
qed

lemma dkey_less: "0 \<le> v \<Longrightarrow> 0 < e \<Longrightarrow> dkey e v < 10"
  using digit_range [of v e] by (simp add: dkey_def nat_less_iff)

lemma mset_pass:
  assumes "\<forall>v \<in> set A. 0 \<le> v" "0 < e"
  shows "mset (pass e A) = mset A"
proof -
  have "mset (pass e A) = mset (filter (\<lambda>v. dkey e v \<in> set [0..<10]) A)"
    unfolding pass_dkey [OF assms] by (rule mset_concat_buckets) simp
  also have "filter (\<lambda>v. dkey e v \<in> set [0..<10]) A = A"
    using assms dkey_less [of _ e] by (intro filter_True) auto
  finally show ?thesis .
qed

lemma pass_stable:
  assumes "\<forall>v \<in> set A. 0 \<le> v" "0 < e"
  shows "filter (\<lambda>v. dkey e v = k) (pass e A) = filter (\<lambda>v. dkey e v = k) A"
proof -
  have "filter (\<lambda>v. dkey e v = k) (pass e A) =
          (if k \<in> set [0..<10] then filter (\<lambda>v. dkey e v = k) A else [])"
    unfolding pass_dkey [OF assms] by (rule filter_concat_buckets) simp
  moreover have "k \<notin> set [0..<10] \<Longrightarrow> filter (\<lambda>v. dkey e v = k) A = []"
    using assms dkey_less [of _ e] by (auto simp: filter_empty_conv)
  ultimately show ?thesis by auto
qed

lemma sorted_dkey_pass:
  assumes "\<forall>v \<in> set A. 0 \<le> v" "0 < e"
  shows "sorted (map (dkey e) (pass e A))"
  unfolding pass_dkey [OF assms] by (rule sorted_concat_buckets) simp

text \<open>
  A list sorted by a major key \<open>f\<close>, and by a minor key \<open>h\<close> within each class of \<open>f\<close>,
  is sorted by \<open>g\<close> when \<open>g\<close> orders by \<open>f\<close> first and \<open>h\<close> second.
\<close>

lemma sorted_by_two_keys:
  fixes f :: "'a \<Rightarrow> nat" and h g :: "'a \<Rightarrow> int"
  assumes lex: "\<And>x y. x \<in> set ys \<Longrightarrow> y \<in> set ys \<Longrightarrow>
                  f x < f y \<or> (f x = f y \<and> h x \<le> h y) \<Longrightarrow> g x \<le> g y"
    and "sorted (map f ys)"
    and "\<And>k. sorted (map h (filter (\<lambda>y. f y = k) ys))"
  shows "sorted (map g ys)"
  using assms
proof (induction ys)
  case Nil
  then show ?case by simp
next
  case (Cons y ys)
  have 1: "sorted (map g ys)"
  proof (rule Cons.IH)
    show "\<And>x z. x \<in> set ys \<Longrightarrow> z \<in> set ys \<Longrightarrow>
           f x < f z \<or> (f x = f z \<and> h x \<le> h z) \<Longrightarrow> g x \<le> g z"
      using Cons.prems(1) by simp
    show "sorted (map f ys)" using Cons.prems(2) by simp
    show "\<And>k. sorted (map h (filter (\<lambda>y. f y = k) ys))"
    proof -
      fix k
      from Cons.prems(3) [of k] show "sorted (map h (filter (\<lambda>y. f y = k) ys))"
        by (cases "f y = k") simp_all
    qed
  qed
  have 2: "g y \<le> g z" if z: "z \<in> set ys" for z
  proof -
    have le: "f y \<le> f z" using Cons.prems(2) z by auto
    show ?thesis
    proof (cases "f y = f z")
      case True
      have "sorted (map h (y # filter (\<lambda>x. f x = f y) ys))"
        using Cons.prems(3) [of "f y"] by simp
      then have "h y \<le> h z" using z True by auto
      with True show ?thesis using Cons.prems(1) [of y z] z by simp
    next
      case False
      with le have "f y < f z" by simp
      then show ?thesis using Cons.prems(1) [of y z] z by simp
    qed
  qed
  from 1 2 show ?case by auto
qed

lemma mod_next_digit:
  fixes v e :: int
  assumes "0 \<le> v" "0 < e"
  shows "v mod (e * 10) = e * ((v div e) mod 10) + v mod e"
  using assms by (simp add: zmod_zmult2_eq)

lemma sorted_mod_pass:
  assumes nn: "\<forall>v \<in> set A. 0 \<le> v" and e: "0 < e" and s: "sorted (map (\<lambda>v. v mod e) A)"
  shows "sorted (map (\<lambda>v. v mod (e * 10)) (pass e A))"
proof (rule sorted_by_two_keys [where f = "dkey e" and h = "\<lambda>v. v mod e"])
  show "sorted (map (dkey e) (pass e A))" by (rule sorted_dkey_pass [OF nn e])
next
  fix k
  have "sorted (map (\<lambda>v. v mod e) (filter (\<lambda>v. dkey e v = k) A))"
    using s by (simp add: sorted_map sorted_wrt_filter)
  then show "sorted (map (\<lambda>v. v mod e) (filter (\<lambda>y. dkey e y = k) (pass e A)))"
    by (simp add: pass_stable [OF nn e])
next
  fix x y
  assume x: "x \<in> set (pass e A)" and y: "y \<in> set (pass e A)"
    and c: "dkey e x < dkey e y \<or> (dkey e x = dkey e y \<and> x mod e \<le> y mod e)"
  have "set (pass e A) = set A" using mset_pass [OF nn e] by (metis set_mset_mset)
  with x y nn have x0: "0 \<le> x" and y0: "0 \<le> y" by auto
  have dx: "int (dkey e x) = (x div e) mod 10" and dy: "int (dkey e y) = (y div e) mod 10"
    using digit_nonneg [OF x0 e] digit_nonneg [OF y0 e] by (simp_all add: dkey_def)
  have mx: "x mod (e * 10) = e * int (dkey e x) + x mod e"
    using mod_next_digit [OF x0 e] dx by simp
  have my: "y mod (e * 10) = e * int (dkey e y) + y mod e"
    using mod_next_digit [OF y0 e] dy by simp
  have bx: "x mod e < e" "0 \<le> y mod e" using e by simp_all
  from c show "x mod (e * 10) \<le> y mod (e * 10)"
  proof
    assume "dkey e x < dkey e y"
    then have "int (dkey e x) + 1 \<le> int (dkey e y)" by simp
    then have "e * (int (dkey e x) + 1) \<le> e * int (dkey e y)"
      using e by (intro mult_left_mono) simp_all
    then show ?thesis using mx my bx by (simp add: algebra_simps)
  next
    assume "dkey e x = dkey e y \<and> x mod e \<le> y mod e"
    then show ?thesis using mx my by simp
  qed
qed

lemma scatter_Some:
  assumes "n = length A" "length buckets = 10" "i \<le> n"
    "\<forall>v \<in> set (drop i A). 0 \<le> digit v e \<and> digit v e < 10"
  shows "fst (scatter n A e i buckets st) =
           Some (map (\<lambda>d. buckets ! d @ filter (\<lambda>v. digit v e = int d) (drop i A)) [0..<10])"
  using assms
proof (induction n A e i buckets st rule: scatter.induct)
  case (1 n A e i buckets st)
  show ?case
  proof (cases "i < n")
    case False
    with "1.prems" have "drop i A = []" by simp
    moreover have "map (\<lambda>d. buckets ! d) [0..<10] = buckets"
      using "1.prems"(2) by (metis map_nth)
    ultimately show ?thesis using False by (simp add: scatter.simps)
  next
    case True
    let ?v = "A ! i"
    let ?d = "nat (digit ?v e)"
    let ?b = "buckets[?d := buckets ! ?d @ [?v]]"
    let ?st1 = "yield (Compare (int i) None) st"
    have dr: "drop i A = ?v # drop (i + 1) A"
      using True "1.prems"(1) by (simp add: Cons_nth_drop_Suc)
    then have dv: "0 \<le> digit ?v e" "digit ?v e < 10" using "1.prems"(4) by simp_all
    then have ok: "i < length A \<and> 0 \<le> digit ?v e \<and> digit ?v e < int (length buckets)"
      using True "1.prems" by simp
    have d10: "?d < 10" using dv by (simp add: nat_less_iff)
    have eq: "scatter n A e i buckets st = scatter n A e (i + 1) ?b ?st1"
      using True ok by (subst scatter.simps) (simp add: Let_def)
    have "fst (scatter n A e (i + 1) ?b ?st1) =
            Some (map (\<lambda>d. ?b ! d @ filter (\<lambda>v. digit v e = int d) (drop (i + 1) A)) [0..<10])"
      using "1.IH" [OF True refl ok refl] "1.prems" True dr by simp
    moreover have "map (\<lambda>d. ?b ! d @ filter (\<lambda>v. digit v e = int d) (drop (i + 1) A)) [0..<10] =
                   map (\<lambda>d. buckets ! d @ filter (\<lambda>v. digit v e = int d) (drop i A)) [0..<10]"
    proof (rule map_cong [OF refl])
      fix d assume "d \<in> set [0..<10]"
      then have d: "d < length buckets" using "1.prems"(2) by simp
      show "?b ! d @ filter (\<lambda>v. digit v e = int d) (drop (i + 1) A) =
            buckets ! d @ filter (\<lambda>v. digit v e = int d) (drop i A)"
      proof (cases "d = ?d")
        case True
        then have "digit ?v e = int d" using dv by simp
        with True d show ?thesis by (simp add: dr)
      next
        case False
        then have "digit ?v e \<noteq> int d" using dv by auto
        with False d show ?thesis by (simp add: dr)
      qed
    qed
    ultimately show ?thesis by (simp add: eq)
  qed
qed

lemma scatter_pass:
  assumes "n = length A" "\<forall>v \<in> set A. 0 \<le> v" "0 < e"
  shows "\<exists>bs. fst (scatter n A e 0 (replicate 10 []) st) = Some bs \<and> concat bs = pass e A \<and>
              length bs = 10"
proof -
  have "\<forall>v \<in> set (drop 0 A). 0 \<le> digit v e \<and> digit v e < 10"
    using assms digit_range [of _ e] by simp
  from scatter_Some [OF assms(1) _ _ this, of "replicate 10 []" st]
  have "fst (scatter n A e 0 (replicate 10 []) st) =
          Some (map (\<lambda>d. replicate 10 [] ! d @ filter (\<lambda>v. digit v e = int d) A) [0..<10])"
    by simp
  moreover have "map (\<lambda>d. replicate 10 [] ! d @ filter (\<lambda>v. digit v e = int d) A) [0..<10] =
                 map (\<lambda>d. filter (\<lambda>v. digit v e = int d) A) [0..<10]"
    by (rule map_cong [OF refl]) simp
  ultimately show ?thesis by (simp add: pass_def)
qed

lemma wr_nat: "idx < length a \<Longrightarrow> wr a (int idx) x = a[idx := x]"
  by (simp add: wr_def)

lemma gather_bucket_spec:
  assumes "gather_bucket scale vs idx A st = (idx', A', st')"
    "idx + length vs \<le> length A" "idx + length vs \<le> length (arr st)"
  shows "idx' = idx + length vs \<and>
         A' = take idx A @ vs @ drop (idx + length vs) A \<and>
         arr st' = take idx (arr st) @ map (\<lambda>v. of_int v / of_int scale) vs @
                   drop (idx + length vs) (arr st)"
  using assms
proof (induction vs arbitrary: idx A st)
  case Nil
  then show ?case by simp
next
  case (Cons v vs)
  let ?x = "of_int v / of_int scale :: rat"
  let ?st2 = "yield (SetV (int idx) ?x) (store (int idx) ?x st)"
  have i: "idx < length A" "idx < length (arr st)" using Cons.prems by simp_all
  have r: "gather_bucket scale vs (idx + 1) (A[idx := v]) ?st2 = (idx', A', st')"
    using Cons.prems(1) by (simp add: Let_def)
  have a: "arr ?st2 = (arr st)[idx := ?x]" using i by (simp add: wr_nat)
  from Cons.IH [OF r] Cons.prems(2,3) a
  have "idx' = idx + 1 + length vs \<and>
        A' = take (idx + 1) (A[idx := v]) @ vs @ drop (idx + 1 + length vs) (A[idx := v]) \<and>
        arr st' = take (idx + 1) ((arr st)[idx := ?x]) @ map (\<lambda>v. of_int v / of_int scale) vs @
                  drop (idx + 1 + length vs) ((arr st)[idx := ?x])"
    by simp
  then show ?case using i by (simp add: take_Suc_conv_app_nth)
qed

lemma gather_spec:
  assumes "gather scale buckets b idx A st = (idx', A', st')" "length buckets = 10"
    "idx + length (concat (drop b buckets)) \<le> length A"
    "idx + length (concat (drop b buckets)) \<le> length (arr st)"
  shows "A' = take idx A @ concat (drop b buckets) @ drop (idx + length (concat (drop b buckets))) A \<and>
         arr st' = take idx (arr st) @ map (\<lambda>v. of_int v / of_int scale) (concat (drop b buckets)) @
                   drop (idx + length (concat (drop b buckets))) (arr st)"
  using assms
proof (induction scale buckets b idx A st rule: gather.induct)
  case (1 scale buckets b idx A st)
  show ?case
  proof (cases "b < 10")
    case False
    with "1.prems" show ?thesis by (simp add: gather.simps)
  next
    case True
    let ?vs = "buckets ! b"
    let ?rest = "concat (drop (b + 1) buckets)"
    obtain idx1 A1 st1 where g: "gather_bucket scale ?vs idx A st = (idx1, A1, st1)"
      by (cases "gather_bucket scale ?vs idx A st")
    have d: "drop b buckets = ?vs # drop (b + 1) buckets"
      using True "1.prems"(2) by (simp add: Cons_nth_drop_Suc)
    have len: "idx + length ?vs + length ?rest \<le> length A"
      "idx + length ?vs + length ?rest \<le> length (arr st)"
      using "1.prems"(3,4) d by simp_all
    have 1: "idx1 = idx + length ?vs"
      "A1 = take idx A @ ?vs @ drop (idx + length ?vs) A"
      "arr st1 = take idx (arr st) @ map (\<lambda>v. of_int v / of_int scale) ?vs @
                 drop (idx + length ?vs) (arr st)"
      using gather_bucket_spec [OF g] len by simp_all
    have l1: "length A1 = length A" "length (arr st1) = length (arr st)"
      using 1 len by simp_all
    have r: "gather scale buckets (b + 1) idx1 A1 st1 = (idx', A', st')"
      using "1.prems"(1) True g by (subst (asm) gather.simps) simp
    have 2: "A' = take idx1 A1 @ ?rest @ drop (idx1 + length ?rest) A1"
      "arr st' = take idx1 (arr st1) @ map (\<lambda>v. of_int v / of_int scale) ?rest @
                 drop (idx1 + length ?rest) (arr st1)"
      using "1.IH" [OF True g [symmetric] refl refl r "1.prems"(2)] 1(1) l1 len by simp_all
    have ta: "take idx1 A1 = take idx A @ ?vs" using 1 len by simp
    have da: "drop (idx1 + length ?rest) A1 = drop (idx + length ?vs + length ?rest) A"
      using 1 len by (simp add: ac_simps)
    have tb: "take idx1 (arr st1) = take idx (arr st) @ map (\<lambda>v. of_int v / of_int scale) ?vs"
      using 1 len by simp
    have db: "drop (idx1 + length ?rest) (arr st1) = drop (idx + length ?vs + length ?rest) (arr st)"
      using 1 len by (simp add: ac_simps)
    show ?thesis unfolding 2 ta da tb db d by (simp add: add.assoc)
  qed
qed

lemma gather_all:
  assumes "gather scale buckets 0 0 A st = (idx', A', st')" "length buckets = 10"
    "length (concat buckets) = length A" "length (arr st) = length A"
  shows "A' = concat buckets \<and> arr st' = map (\<lambda>v. of_int v / of_int scale) (concat buckets)"
  using gather_spec [OF assms(1,2)] assms(3,4) by simp

lemma foldl_max_ge:
  "m0 \<le> foldl (\<lambda>m v. if v > m then v else m) m0 vs \<and>
   (\<forall>v \<in> set vs. v \<le> foldl (\<lambda>m v. if v > m then v else m) (m0 :: int) vs)"
proof (induction vs arbitrary: m0)
  case Nil
  then show ?case by simp
next
  case (Cons v vs)
  from Cons [of "if v > m0 then v else m0"] show ?case by (auto split: if_splits)
qed

lemma sorted_map_const: "sorted (map (\<lambda>v. c :: int) xs)"
  by (induction xs) auto

lemma radix_loop_spec:
  assumes "n = length A" "length (arr st) = n" "\<forall>v \<in> set A. 0 \<le> v" "0 < e"
    "sorted (map (\<lambda>v. v mod e) A)" "\<forall>v \<in> set A. v \<le> m"
  shows "\<exists>A'. fst (radix_loop n scale A m e st) \<and> mset A' = mset A \<and> sorted A' \<and>
          (if \<lfloor>(of_int m :: rat) / of_int e\<rfloor> > 0
           then arr (snd (radix_loop n scale A m e st)) = map (\<lambda>v. of_int v / of_int scale) A'
           else snd (radix_loop n scale A m e st) = st \<and> A' = A)"
  using assms
proof (induction n scale A m e st rule: radix_loop.induct)
  case (1 n scale A m e st)
  show ?case
  proof (cases "\<lfloor>(of_int m :: rat) / of_int e\<rfloor> > 0")
    case False
    then have "m div e \<le> 0" by (simp add: floor_divide_of_int_eq)
    then have "m < e" using "1.prems"(4) pos_imp_zdiv_pos_iff [of e m]
      by simp
    then have "\<forall>v \<in> set A. v mod e = v" using "1.prems"(3,6) by auto
    then have "map (\<lambda>v. v mod e) A = A" by (simp add: map_idI)
    then have "sorted A" using "1.prems"(5) by simp
    with False show ?thesis by (simp add: radix_loop.simps)
  next
    case True
    obtain ob st1 where s: "scatter n A e 0 (replicate 10 []) st = (ob, st1)"
      by (cases "scatter n A e 0 (replicate 10 []) st")
    obtain bs where bs: "ob = Some bs" "concat bs = pass e A" "length bs = 10"
      using scatter_pass [OF "1.prems"(1,3,4), of st] s by auto
    have e1: "ext True st st1"
      using scatter_ext [of True st st n A e 0 "replicate 10 []"] "1.prems"(2) s by simp
    have len1: "length (arr st1) = length A" using ext_length [OF e1] "1.prems" by simp
    have mp: "mset (pass e A) = mset A" by (rule mset_pass [OF "1.prems"(3,4)])
    then have lp: "length (pass e A) = length A" by (metis size_mset)
    have sp: "set (pass e A) = set A" using mp by (metis set_mset_mset)
    obtain idx A1 st2 where g: "gather scale bs 0 0 A st1 = (idx, A1, st2)"
      by (cases "gather scale bs 0 0 A st1")
    have ga: "A1 = pass e A" "arr st2 = map (\<lambda>v. of_int v / of_int scale) (pass e A)"
      using gather_all [OF g bs(3)] bs(2) lp len1 by simp_all
    have eq: "radix_loop n scale A m e st = radix_loop n scale A1 m (e * 10) st2"
      using True s bs(1) g by (subst radix_loop.simps) simp
    have "\<exists>A'. fst (radix_loop n scale A1 m (e * 10) st2) \<and> mset A' = mset A1 \<and> sorted A' \<and>
          (if \<lfloor>(of_int m :: rat) / of_int (e * 10)\<rfloor> > 0
           then arr (snd (radix_loop n scale A1 m (e * 10) st2)) = map (\<lambda>v. of_int v / of_int scale) A'
           else snd (radix_loop n scale A1 m (e * 10) st2) = st2 \<and> A' = A1)"
    proof (rule "1.IH" [OF True s [symmetric] bs(1) refl g [symmetric] refl])
      show "n = length A1" using ga lp "1.prems"(1) by simp
      show "length (arr st2) = n" using ga lp "1.prems"(1) by simp
      show "\<forall>v \<in> set A1. 0 \<le> v" using ga sp "1.prems"(3) by simp
      show "0 < e * 10" using "1.prems"(4) by simp
      show "sorted (map (\<lambda>v. v mod (e * 10)) A1)"
        using sorted_mod_pass [OF "1.prems"(3,4,5)] ga by simp
      show "\<forall>v \<in> set A1. v \<le> m" using ga sp "1.prems"(6) by simp
    qed
    then obtain A' where A': "fst (radix_loop n scale A1 m (e * 10) st2)" "mset A' = mset A1"
      "sorted A'"
      "if \<lfloor>(of_int m :: rat) / of_int (e * 10)\<rfloor> > 0
       then arr (snd (radix_loop n scale A1 m (e * 10) st2)) = map (\<lambda>v. of_int v / of_int scale) A'
       else snd (radix_loop n scale A1 m (e * 10) st2) = st2 \<and> A' = A1"
      by blast
    have "arr (snd (radix_loop n scale A1 m (e * 10) st2)) = map (\<lambda>v. of_int v / of_int scale) A'"
      using A'(4) ga by (auto split: if_splits)
    with A' True mp ga show ?thesis unfolding eq by auto
  qed
qed

lemma radixGen_unfold:
  "radixGen A =
     (let r = radix_loop (length A) 1000 (scaled A)
                (foldl (\<lambda>m v. if v > m then v else m) 0 (scaled A)) 1 (initial A)
      in if fst r then yield Done (snd r) else snd r)"
  by (simp add: radixGen_def scaled_def Let_def split: prod.splits)

lemma scaled_pos_iff:
  assumes "\<forall>x \<in> set A. 0 \<le> x"
  shows "0 < foldl (\<lambda>m v. if v > m then v else m) 0 (scaled A) \<longleftrightarrow> (\<exists>x \<in> set A. 1 / 1000 \<le> x)"
proof
  let ?m = "foldl (\<lambda>m v. if v > m then v else m) 0 (scaled A)"
  assume "0 < ?m"
  have "\<not> (\<forall>v \<in> set (scaled A). v \<le> 0)"
  proof
    assume "\<forall>v \<in> set (scaled A). v \<le> 0"
    then have "?m = 0" by (rule foldl_max_nonpos)
    with \<open>0 < ?m\<close> show False by simp
  qed
  then obtain x where x: "x \<in> set A" "0 < \<lfloor>x * 1000\<rfloor>" by (auto simp: scaled_def)
  then have "1 \<le> \<lfloor>x * 1000\<rfloor>" by simp
  then have "1 \<le> x * 1000" by (simp add: le_floor_iff)
  then have "1 / 1000 \<le> x" by simp
  with x show "\<exists>x \<in> set A. 1 / 1000 \<le> x" by blast
next
  let ?m = "foldl (\<lambda>m v. if v > m then v else m) 0 (scaled A)"
  assume "\<exists>x \<in> set A. 1 / 1000 \<le> x"
  then obtain x where x: "x \<in> set A" "1 / 1000 \<le> x" by blast
  then have "1 \<le> x * 1000" by simp
  then have f1: "1 \<le> \<lfloor>x * 1000\<rfloor>" by (simp add: le_floor_iff)
  have "\<lfloor>x * 1000\<rfloor> \<in> set (scaled A)" using x by (auto simp: scaled_def)
  then have f2: "\<lfloor>x * 1000\<rfloor> \<le> ?m" using foldl_max_ge [of 0 "scaled A"] by blast
  from f1 f2 show "0 < ?m" by linarith
qed

lemma radixGen_spec:
  assumes "\<forall>x \<in> set A. 0 \<le> x"
  shows "\<exists>st A'. ext True (initial A) st \<and> radixGen A = yield Done st \<and>
           mset A' = mset (scaled A) \<and> sorted A' \<and>
           (if \<exists>x \<in> set A. 1 / 1000 \<le> x
            then arr st = map (\<lambda>v. of_int v / 1000) A' else arr st = A)"
proof -
  let ?A = "scaled A"
  let ?m = "foldl (\<lambda>m v. if v > m then v else m) 0 ?A"
  let ?r = "radix_loop (length A) 1000 ?A ?m 1 (initial A)"
  have nn: "\<forall>v \<in> set ?A. 0 \<le> v" using assms by (auto simp: scaled_def)
  have mx: "\<forall>v \<in> set ?A. v \<le> ?m" using foldl_max_ge [of 0 ?A] by blast
  have s1: "sorted (map (\<lambda>v. v mod 1) ?A)"
  proof -
    have "map (\<lambda>v. v mod 1) ?A = map (\<lambda>v. 0) ?A" by simp
    then show ?thesis by (simp only: sorted_map_const)
  qed
  have l: "length A = length ?A" by (simp add: scaled_def)
  from radix_loop_spec [OF l _ nn _ s1 mx, of "initial A" 1000]
  obtain A' where A': "fst ?r" "mset A' = mset ?A" "sorted A'"
    "if 0 < ?m then arr (snd ?r) = map (\<lambda>v. of_int v / 1000) A' else snd ?r = initial A \<and> A' = ?A"
    by auto
  have e: "ext True (initial A) (snd ?r)"
    using radix_loop_ext [of True "initial A" "initial A" "length A" 1000 ?A ?m 1] by simp
  have g: "radixGen A = yield Done (snd ?r)"
    using A'(1) by (simp add: radixGen_unfold Let_def)
  have "if \<exists>x \<in> set A. 1 / 1000 \<le> x
        then arr (snd ?r) = map (\<lambda>v. of_int v / 1000) A' else arr (snd ?r) = A"
    using A'(4) scaled_pos_iff [OF assms] by (auto split: if_splits)
  with e g A'(2,3) show ?thesis by blast
qed

lemma run_done_once_last:
  assumes "ext sm (initial A) st"
  shows "done_once_last (yield Done st)"
proof -
  from assms have "follows A (trace st) (arr st)" by (simp add: ext_def)
  then have "Done \<notin> set (steps_of (trace st))" by (rule follows_no_done)
  then have "count_list (steps_of (trace st)) Done = 0" by (simp add: count_list_0_iff)
  then show ?thesis by (simp add: done_once_last_def)
qed


section \<open>Functional correctness of the sorts\<close>

subsection \<open>Permutations inside a range\<close>

lemma rd_nat: "rd a (int k) = (if k < length a then Some (a ! k) else None)"
  by (simp add: rd_def)

lemma swap_arr_nat:
  "i < length a \<Longrightarrow> j < length a \<Longrightarrow> swap_arr a (int i) (int j) = a[i := a ! j, j := a ! i]"
  by (simp add: swap_arr_def rd_def wr_def)

lemma mset_swap_arr [simp]: "mset (swap_arr a i j) = mset a"
proof (cases "in_range (length a) i \<and> in_range (length a) j")
  case True
  then obtain i' j' where ij: "i = int i'" "j = int j'" "i' < length a" "j' < length a"
    by (auto simp: in_range_def elim!: nonneg_int_cases)
  then show ?thesis using mset_swap [of j' a i'] by (simp add: swap_arr_nat)
next
  case False
  then show ?thesis by (auto simp: swap_arr_def rd_def in_range_def split: option.splits)
qed

lemma perm_within_refl [simp]: "perm_within lo hi a a"
  by (auto simp: perm_within_def)

lemma perm_within_trans:
  assumes "perm_within lo hi a b" "perm_within lo hi b c"
  shows "perm_within lo hi a c"
  unfolding perm_within_def
proof (intro conjI allI impI)
  show "length c = length a" using assms by (simp add: perm_within_def)
  show "mset c = mset a" using assms by (simp add: perm_within_def)
next
  fix x assume "x < length a \<and> (x < lo \<or> hi < x)"
  then show "c ! x = a ! x" using assms by (simp add: perm_within_def)
next
  fix p assume p: "lo \<le> p \<and> p \<le> hi \<and> p < length a"
  then obtain p1 where p1: "lo \<le> p1" "p1 \<le> hi" "p1 < length b" "c ! p = b ! p1"
    using assms(1,2) unfolding perm_within_def by metis
  then obtain p2 where "lo \<le> p2" "p2 \<le> hi" "p2 < length a" "b ! p1 = a ! p2"
    using assms(1) unfolding perm_within_def by metis
  with p1 show "\<exists>p'. lo \<le> p' \<and> p' \<le> hi \<and> p' < length a \<and> c ! p = a ! p'" by auto
qed

lemma perm_within_swap:
  assumes "lo \<le> i" "i \<le> hi" "lo \<le> j" "j \<le> hi" "i < length a" "j < length a"
  shows "perm_within lo hi a (a[i := a ! j, j := a ! i])"
  unfolding perm_within_def
proof (intro conjI allI impI)
  show "mset (a[i := a ! j, j := a ! i]) = mset a" using mset_swap [of j a i] assms by simp
next
  fix p assume p: "lo \<le> p \<and> p \<le> hi \<and> p < length a"
  show "\<exists>p'. lo \<le> p' \<and> p' \<le> hi \<and> p' < length a \<and> a[i := a ! j, j := a ! i] ! p = a ! p'"
  proof (cases "p = j")
    case True
    with assms show ?thesis by (intro exI [of _ i]) simp
  next
    case False
    show ?thesis
    proof (cases "p = i")
      case True
      with False assms show ?thesis by (intro exI [of _ j]) simp
    next
      case ni: False
      with False p show ?thesis by (intro exI [of _ p]) simp
    qed
  qed
qed (use assms in auto)

lemma perm_within_widen:
  assumes "perm_within lo hi a b" "lo' \<le> lo" "hi \<le> hi'"
  shows "perm_within lo' hi' a b"
  unfolding perm_within_def
proof (intro conjI allI impI)
  fix p assume p: "lo' \<le> p \<and> p \<le> hi' \<and> p < length a"
  show "\<exists>p'. lo' \<le> p' \<and> p' \<le> hi' \<and> p' < length a \<and> b ! p = a ! p'"
  proof (cases "lo \<le> p \<and> p \<le> hi")
    case True
    then obtain p' where "lo \<le> p'" "p' \<le> hi" "p' < length a" "b ! p = a ! p'"
      using assms(1) p unfolding perm_within_def by metis
    with assms(2,3) show ?thesis by (intro exI [of _ p']) simp
  next
    case False
    then have "b ! p = a ! p" using assms(1) p unfolding perm_within_def by auto
    with p show ?thesis by (intro exI [of _ p]) simp
  qed
qed (use assms in \<open>auto simp: perm_within_def\<close>)

lemma tail_ok_sorted: "tail_ok 0 a \<Longrightarrow> sorted a"
  by (auto simp: tail_ok_def sorted_iff_nth_mono_less)

lemma tail_ok_1_sorted: "tail_ok 1 a \<Longrightarrow> sorted a"
  by (auto simp: tail_ok_def sorted_iff_nth_mono_less)

lemma adj_tail_sorted:
  assumes "adj_sorted m a" "tail_ok m a"
  shows "sorted a"
proof -
  have "a ! i \<le> a ! Suc i" if "Suc i < length a" for i
  proof (cases "i < m")
    case True
    with assms(1) show ?thesis by (simp add: adj_sorted_def)
  next
    case False
    with assms(2) that show ?thesis by (auto simp: tail_ok_def)
  qed
  then show ?thesis by (simp add: sorted_iff_nth_Suc)
qed

text \<open>A permutation inside \<open>0..hi\<close> keeps a tail that dominates everything before it.\<close>

lemma tail_ok_perm_within:
  assumes "tail_ok k a" "perm_within lo hi a b" "hi < k"
  shows "tail_ok k b"
  unfolding tail_ok_def
proof (intro allI impI)
  fix p q assume pq: "p < q \<and> q < length b \<and> k \<le> q"
  have len: "length b = length a" using assms(2) by (simp add: perm_within_def)
  have q: "b ! q = a ! q" using assms(2,3) pq len unfolding perm_within_def by auto
  obtain p' where p': "p' < q" "b ! p = a ! p'"
  proof (cases "lo \<le> p \<and> p \<le> hi")
    case True
    then obtain p' where h: "p' \<le> hi" "b ! p = a ! p'"
      using assms(2) pq len unfolding perm_within_def by (metis less_trans)
    from h(1) assms(3) pq have "p' < q" by simp
    with h(2) that show ?thesis by blast
  next
    case False
    then have "b ! p = a ! p" using assms(2) pq len unfolding perm_within_def by auto
    with pq that show ?thesis by auto
  qed
  with assms(1) pq len q show "b ! p \<le> b ! q" by (auto simp: tail_ok_def)
qed

subsection \<open>bubbleGen\<close>

lemma top_at_swap:
  assumes "top_at j a" "j + 1 < length a" "a ! (j + 1) < a ! j"
  shows "top_at (j + 1) (a[j := a ! (j + 1), j + 1 := a ! j])"
  unfolding top_at_def
proof (intro allI impI)
  fix p assume "p < j + 1"
  then consider "p < j" | "p = j" by linarith
  then show "a[j := a ! (j + 1), j + 1 := a ! j] ! p \<le> a[j := a ! (j + 1), j + 1 := a ! j] ! (j + 1)"
  proof cases
    case 1
    with assms show ?thesis by (simp add: top_at_def)
  next
    case 2
    with assms show ?thesis by simp
  qed
qed

lemma top_at_step: "top_at j a \<Longrightarrow> a ! j \<le> a ! (j + 1) \<Longrightarrow> top_at (j + 1) a"
  unfolding top_at_def by (metis Suc_eq_plus1 less_Suc_eq order_trans order_refl)

lemma adj_sorted_step: "adj_sorted j a \<Longrightarrow> a ! j \<le> a ! (j + 1) \<Longrightarrow> adj_sorted (j + 1) a"
  unfolding adj_sorted_def by (metis Suc_eq_plus1 less_Suc_eq)

lemma tail_ok_down: "top_at j a \<Longrightarrow> tail_ok (j + 1) a \<Longrightarrow> tail_ok j a"
  unfolding tail_ok_def top_at_def
  by (metis Suc_eq_plus1 Suc_leI le_neq_implies_less)

lemma bubble_inner_correct:
  assumes "bubble_inner n i j sw st = (sw', st')" "n = int (length (arr st))" "0 \<le> i" "0 \<le> j"
    "j \<le> n - 1 - i" "top_at (nat j) (arr st)" "tail_ok (nat (n - i)) (arr st)"
    "\<not> sw \<longrightarrow> adj_sorted (nat j) (arr st)"
  shows "mset (arr st') = mset (arr st) \<and> tail_ok (nat (n - 1 - i)) (arr st') \<and>
         (\<not> sw' \<longrightarrow> adj_sorted (nat (n - 1 - i)) (arr st'))"
  using assms
proof (induction n i j sw st rule: bubble_inner.induct)
  case (1 n i j sw st)
  let ?a = "arr st"
  obtain J where J: "j = int J" using "1.prems"(4) by (auto elim: nonneg_int_cases)
  show ?case
  proof (cases "j < n - 1 - i")
    case False
    with "1.prems"(5) have e: "j = n - 1 - i" by simp
    then have k: "nat (n - i) = J + 1" using J by simp
    have t: "tail_ok J ?a" using "1.prems"(6,7) J k by (simp add: tail_ok_down)
    have nj: "nat (n - 1 - i) = J" using e J by simp
    have "sw' = sw" "st' = st"
      using "1.prems"(1) False by (simp_all add: bubble_inner.simps)
    with t nj "1.prems"(8) J show ?thesis by simp
  next
    case True
    let ?st1 = "test j (Some (j + 1)) (yield (Compare j (Some (j + 1))) st)"
    have in1: "J + 1 < length ?a" using True "1.prems"(2,3) J by simp
    have k: "J + 1 < nat (n - i)" using True J by simp
    have nj1: "nat (j + 1) = J + 1" using J by simp
    have rj: "rd ?a j = Some (?a ! J)" "rd ?a (j + 1) = Some (?a ! (J + 1))"
      using in1 J by (auto simp: rd_def nat_add_distrib)
    show ?thesis
    proof (cases "js_gt (rd (arr ?st1) j) (rd (arr ?st1) (j + 1))")
      case gt: True
      then have lt: "?a ! (J + 1) < ?a ! J"
        by (simp add: js_gt_def rj)
      let ?a' = "?a[J := ?a ! (J + 1), J + 1 := ?a ! J]"
      let ?st2 = "yield (Swap j (j + 1)) (swap j (j + 1) ?st1)"
      have "swap_arr ?a (int J) (int (J + 1)) = ?a'" using in1 by (intro swap_arr_nat) simp_all
      then have a': "arr ?st2 = ?a'" using J by (simp add: add.commute)
      have r: "bubble_inner n i (j + 1) True ?st2 = (sw', st')"
        using "1.prems"(1) True gt by (subst (asm) bubble_inner.simps) (simp add: Let_def)
      have t: "top_at (nat (j + 1)) (arr ?st2)"
        unfolding a' nj1 using top_at_swap [OF _ in1 lt] "1.prems"(6) J by simp
      have pw: "perm_within J (J + 1) ?a ?a'" using in1 by (intro perm_within_swap) simp_all
      have tl: "tail_ok (nat (n - i)) (arr ?st2)"
        unfolding a' by (rule tail_ok_perm_within [OF "1.prems"(7) pw k])
      show ?thesis
        using "1.IH"(1) [OF True refl gt r _ "1.prems"(3) _ _ t tl] "1.prems"(2,4) True by simp
    next
      case ngt: False
      then have le: "?a ! J \<le> ?a ! (J + 1)"
        by (simp add: js_gt_def rj)
      have r: "bubble_inner n i (j + 1) sw ?st1 = (sw', st')"
        using "1.prems"(1) True ngt by (subst (asm) bubble_inner.simps) (simp add: Let_def)
      have t: "top_at (nat (j + 1)) (arr ?st1)"
        unfolding nj1 using top_at_step [OF _ le] "1.prems"(6) J by simp
      have ad: "\<not> sw \<longrightarrow> adj_sorted (nat (j + 1)) (arr ?st1)"
        unfolding nj1 using adj_sorted_step [OF _ le] "1.prems"(8) J by simp
      show ?thesis
        using "1.IH"(2) [OF True refl ngt r _ "1.prems"(3) _ _ t _ ad] "1.prems"(2,4,7) True by simp
    qed
  qed
qed

lemma bubble_outer_correct:
  assumes "n = int (length (arr st))" "0 \<le> i" "i \<le> n" "tail_ok (nat (n - i)) (arr st)"
  shows "sorted (arr (bubble_outer n i st)) \<and> mset (arr (bubble_outer n i st)) = mset (arr st)"
  using assms
proof (induction n i st rule: bubble_outer.induct)
  case (1 n i st)
  show ?case
  proof (cases "i < n")
    case False
    with "1.prems" have "tail_ok 0 (arr st)" by simp
    with False show ?thesis by (simp add: bubble_outer.simps tail_ok_sorted)
  next
    case True
    obtain sw st1 where b: "bubble_inner n i 0 False st = (sw, st1)"
      by (cases "bubble_inner n i 0 False st")
    have 1: "mset (arr st1) = mset (arr st) \<and> tail_ok (nat (n - 1 - i)) (arr st1) \<and>
          (\<not> sw \<longrightarrow> adj_sorted (nat (n - 1 - i)) (arr st1))"
      using bubble_inner_correct [OF b "1.prems"(1,2)] True "1.prems"(4)
      by (simp add: top_at_def adj_sorted_def)
    then have len: "length (arr st1) = length (arr st)" by (metis size_mset)
    show ?thesis
    proof (cases sw)
      case False
      with 1 have "sorted (arr st1)" by (auto intro: adj_tail_sorted)
      with False True b 1 show ?thesis by (simp add: bubble_outer.simps [of n i st])
    next
      case sw: True
      have t: "tail_ok (nat (n - (i + 1))) (arr st1)" using 1 by (simp add: algebra_simps)
      from "1.IH" [OF True b [symmetric] refl _ _ _ _ t] sw "1.prems" len True
      have "sorted (arr (bubble_outer n (i + 1) st1)) \<and>
            mset (arr (bubble_outer n (i + 1) st1)) = mset (arr st1)" by simp
      with sw True b 1 show ?thesis by (simp add: bubble_outer.simps [of n i st])
    qed
  qed
qed

lemma bubbleGen_sorts: "sorted (arr (bubbleGen A)) \<and> mset (arr (bubbleGen A)) = mset A"
  using bubble_outer_correct [of "int (length A)" "initial A" 0]
  by (simp add: bubbleGen_def Let_def tail_ok_def)

subsection \<open>quickGen\<close>

lemma rd_elem: "in_range (length a) x \<Longrightarrow> rd a x = Some (elem a x)"
  by (simp add: rd_def elem_def in_range_def)

lemma elem_swap_arr:
  assumes "in_range (length a) i" "in_range (length a) j" "in_range (length a) x"
  shows "elem (swap_arr a i j) x = (if x = i then elem a j else if x = j then elem a i else elem a x)"
proof -
  have "rd (swap_arr a i j) x = Some (elem (swap_arr a i j) x)"
    using assms(3) by (intro rd_elem) simp
  then show ?thesis using rd_swap_arr [OF assms(1,2), of x] assms by (auto simp: rd_elem)
qed

lemma iperm_refl [simp]: "iperm l r a a"
  by (auto simp: iperm_def)

lemma iperm_trans:
  assumes "iperm l r a b" "iperm l r b c"
  shows "iperm l r a c"
  unfolding iperm_def
proof (intro conjI allI impI)
  show "length c = length a" using assms by (simp add: iperm_def)
  show "mset c = mset a" using assms by (simp add: iperm_def)
next
  fix x assume "in_range (length a) x \<and> (x < l \<or> r < x)"
  then show "elem c x = elem a x" using assms by (simp add: iperm_def)
next
  fix p assume p: "l \<le> p \<and> p \<le> r"
  then obtain p1 where p1: "l \<le> p1" "p1 \<le> r" "elem c p = elem b p1"
    using assms(2) unfolding iperm_def by metis
  then obtain p2 where "l \<le> p2" "p2 \<le> r" "elem b p1 = elem a p2"
    using assms(1) unfolding iperm_def by metis
  with p1 show "\<exists>p'. l \<le> p' \<and> p' \<le> r \<and> elem c p = elem a p'" by auto
qed

lemma iperm_swap:
  assumes "0 \<le> l" "r < int (length a)" "l \<le> i" "i \<le> r" "l \<le> j" "j \<le> r"
  shows "iperm l r a (swap_arr a i j)"
proof -
  have ri: "in_range (length a) i" and rj: "in_range (length a) j"
    using assms by (simp_all add: in_range_def)
  show ?thesis
    unfolding iperm_def
  proof (intro conjI allI impI)
    fix x assume "in_range (length a) x \<and> (x < l \<or> r < x)"
    then show "elem (swap_arr a i j) x = elem a x"
      using assms by (auto simp: elem_swap_arr [OF ri rj])
  next
    fix p assume p: "l \<le> p \<and> p \<le> r"
    then have rp: "in_range (length a) p" using assms by (simp add: in_range_def)
    show "\<exists>p'. l \<le> p' \<and> p' \<le> r \<and> elem (swap_arr a i j) p = elem a p'"
    proof (cases "p = i")
      case True
      with assms elem_swap_arr [OF ri rj rp] show ?thesis by (intro exI [of _ j]) simp
    next
      case False
      show ?thesis
      proof (cases "p = j")
        case True
        with False assms elem_swap_arr [OF ri rj rp] show ?thesis
          by (intro exI [of _ i]) simp
      next
        case nj: False
        with False p elem_swap_arr [OF ri rj rp] show ?thesis
          by (intro exI [of _ p]) simp
      qed
    qed
  qed simp_all
qed

lemma scan_left_passed:
  "i \<le> x \<Longrightarrow> x < fst (scan_left pivot i st) \<Longrightarrow> js_lt (rd (arr st) x) pivot"
proof (induction pivot i st rule: scan_left.induct)
  case (1 pivot i st)
  show ?case
  proof (cases "js_lt (rd (arr (test i None st)) i) pivot")
    case True
    show ?thesis
    proof (cases "x = i")
      case True
      with \<open>js_lt (rd (arr (test i None st)) i) pivot\<close> show ?thesis by simp
    next
      case False
      with "1.prems" have "i + 1 \<le> x" by simp
      moreover have "x < fst (scan_left pivot (i + 1) (yield (Compare i None) (test i None st)))"
        using "1.prems"(2) True by (subst (asm) scan_left.simps) (simp add: Let_def)
      ultimately show ?thesis using "1.IH" [OF refl True] by simp
    qed
  next
    case False
    then have "fst (scan_left pivot i st) = i" by (subst scan_left.simps) (simp add: Let_def)
    with "1.prems" show ?thesis by simp
  qed
qed

lemma scan_right_passed:
  "x \<le> j \<Longrightarrow> fst (scan_right pivot j st) < x \<Longrightarrow> js_gt (rd (arr st) x) pivot"
proof (induction pivot j st rule: scan_right.induct)
  case (1 pivot j st)
  show ?case
  proof (cases "js_gt (rd (arr (test j None st)) j) pivot")
    case True
    show ?thesis
    proof (cases "x = j")
      case True
      with \<open>js_gt (rd (arr (test j None st)) j) pivot\<close> show ?thesis by simp
    next
      case False
      with "1.prems" have "x \<le> j - 1" by simp
      moreover have "fst (scan_right pivot (j - 1) (yield (Compare j None) (test j None st))) < x"
        using "1.prems"(2) True by (subst (asm) scan_right.simps) (simp add: Let_def)
      ultimately show ?thesis using "1.IH" [OF refl True] by simp
    qed
  next
    case False
    then have "fst (scan_right pivot j st) = j" by (subst scan_right.simps) (simp add: Let_def)
    with "1.prems" show ?thesis by simp
  qed
qed

lemma js_lt_elem: "js_lt (rd a x) (Some pv) \<Longrightarrow> elem a x < pv"
  by (auto simp: rd_def elem_def split: if_splits)

lemma js_gt_elem: "js_gt (rd a x) (Some pv) \<Longrightarrow> pv < elem a x"
  by (auto simp: rd_def elem_def js_gt_def split: if_splits)

lemma not_js_lt_elem: "in_range (length a) x \<Longrightarrow> \<not> js_lt (rd a x) (Some pv) \<Longrightarrow> pv \<le> elem a x"
  by (simp add: rd_elem)

lemma not_js_gt_elem: "in_range (length a) x \<Longrightarrow> \<not> js_gt (rd a x) (Some pv) \<Longrightarrow> elem a x \<le> pv"
  by (simp add: rd_elem js_gt_def)

lemma partition_loop_post:
  assumes "partition_loop (Some pv) i j st = (i', j', st')" "0 \<le> l" "r < int (length (arr st))"
    "l \<le> i" "j \<le> r" "part_inv pv l r i j (arr st)"
  shows "part_inv pv l r i' j' (arr st') \<and> iperm l r (arr st) (arr st')"
  using assms
proof (induction "Some pv" i j st rule: partition_loop.induct)
  case (1 i j st)
  let ?a = "arr st"
  show ?case
  proof (cases "i \<le> j")
    case False
    with "1.prems" show ?thesis by (simp add: partition_loop.simps)
  next
    case True
    obtain i1 st1 where sl: "scan_left (Some pv) i st = (i1, st1)"
      by (cases "scan_left (Some pv) i st")
    obtain j1 st2 where sr: "scan_right (Some pv) j st1 = (j1, st2)"
      by (cases "scan_right (Some pv) j st1")
    have a1: "arr st1 = ?a" using scan_left_arr [of "Some pv" i st] sl by simp
    have a2: "arr st2 = ?a" using scan_right_arr [of "Some pv" j st1] sr a1 by simp
    have i1: "i \<le> i1" using scan_left_ge [of i "Some pv" st] sl by simp
    have j1: "j1 \<le> j" using scan_right_le [of "Some pv" j st1] sr by simp
    have pl: "elem ?a x \<le> pv" if "i \<le> x" "x < i1" for x
      using scan_left_passed [of i x "Some pv" st] that sl js_lt_elem [of ?a x pv] by simp
    have pr: "pv \<le> elem ?a x" if "x \<le> j" "j1 < x" for x
      using scan_right_passed [of x j "Some pv" st1] that sr a1 js_gt_elem [of ?a x pv] by simp
    have inv1: "part_inv pv l r i1 j1 ?a"
      unfolding part_inv_def
    proof (intro conjI allI impI)
      fix x assume "l \<le> x \<and> x < i1"
      then show "elem ?a x \<le> pv"
        using pl [of x] "1.prems"(6) by (cases "x < i") (auto simp: part_inv_def)
    next
      fix x assume "j1 < x \<and> x \<le> r"
      then show "pv \<le> elem ?a x"
        using pr [of x] "1.prems"(6) by (cases "j < x") (auto simp: part_inv_def)
    qed
    show ?thesis
    proof (cases "i1 \<le> j1")
      case le: True
      let ?st3 = "yield (Swap i1 j1) (swap i1 j1 st2)"
      let ?a' = "swap_arr ?a i1 j1"
      have ri: "in_range (length ?a) i1" and rj: "in_range (length ?a) j1"
        using le i1 j1 "1.prems" by (simp_all add: in_range_def)
      have s1: "pv \<le> elem ?a i1"
        using scan_left_stopped [of st "Some pv" i] sl ri by (simp add: not_js_lt_elem)
      have s2: "elem ?a j1 \<le> pv"
        using scan_right_stopped [of st1 "Some pv" j] sr a1 rj by (simp add: not_js_gt_elem)
      have a3: "arr ?st3 = ?a'" using a2 by simp
      have inv3: "part_inv pv l r (i1 + 1) (j1 - 1) ?a'"
        unfolding part_inv_def
      proof (intro conjI allI impI)
        fix x assume x: "l \<le> x \<and> x < i1 + 1"
        then have rx: "in_range (length ?a) x" using "1.prems" le j1 by (simp add: in_range_def)
        show "elem ?a' x \<le> pv"
        proof (cases "x = i1")
          case True
          with s2 elem_swap_arr [OF ri rj rx] show ?thesis by simp
        next
          case False
          with x le have "x < i1" "x \<noteq> j1" by simp_all
          with x inv1 elem_swap_arr [OF ri rj rx] show ?thesis by (simp add: part_inv_def)
        qed
      next
        fix x assume x: "j1 - 1 < x \<and> x \<le> r"
        then have rx: "in_range (length ?a) x" using "1.prems" le i1 by (simp add: in_range_def)
        show "pv \<le> elem ?a' x"
        proof (cases "x = j1")
          case True
          with s1 elem_swap_arr [OF ri rj rx] show ?thesis by simp
        next
          case False
          with x le have "j1 < x" "x \<noteq> i1" by simp_all
          with x inv1 elem_swap_arr [OF ri rj rx] show ?thesis by (simp add: part_inv_def)
        qed
      qed
      have ip: "iperm l r ?a ?a'"
        using "1.prems" le i1 j1 by (intro iperm_swap) simp_all
      have rec: "partition_loop (Some pv) (i1 + 1) (j1 - 1) ?st3 = (i', j', st')"
        using "1.prems"(1) True sl sr le by (subst (asm) partition_loop.simps) simp
      have "part_inv pv l r i' j' (arr st') \<and> iperm l r (arr ?st3) (arr st')"
        using "1.hyps"(1) [OF True sl [symmetric] refl sr [symmetric] refl le rec "1.prems"(2)]
          inv3 a2 "1.prems"(3,4,5) i1 j1 by simp
      with ip a2 show ?thesis by (auto intro: iperm_trans)
    next
      case gt: False
      have rec: "partition_loop (Some pv) i1 j1 st2 = (i', j', st')"
        using "1.prems"(1) True sl sr gt by (subst (asm) partition_loop.simps) simp
      have "part_inv pv l r i' j' (arr st') \<and> iperm l r (arr st2) (arr st')"
        using "1.hyps"(2) [OF True sl [symmetric] refl sr [symmetric] refl gt rec "1.prems"(2)]
          inv1 a2 "1.prems"(3,4,5) i1 j1 by simp
      with a2 show ?thesis by simp
    qed
  qed
qed

lemma qinv_sorted:
  assumes "qinv [] a"
  shows "sorted a"
proof -
  have "a ! p \<le> a ! q" if "p < q" "q < length a" for p q
    using assms that unfolding qinv_def elem_def
    by (metis (no_types, lifting) empty_iff list.set(1) nat_int of_nat_0_le_iff of_nat_less_iff)
  then show ?thesis by (simp add: sorted_iff_nth_mono_less)
qed

lemma qinv_skip:
  assumes "qinv ((l, r) # stack) a" "l \<ge> r"
  shows "qinv stack a"
  using assms unfolding qinv_def by (auto 4 3)

lemma qinv_step:
  assumes q: "qinv ((l, r) # stack) a" and lr: "l < r"
    and pi: "part_inv pv l r i j a'" and ip: "iperm l r a a'"
    and b: "l \<le> i" "j \<le> r" "j < i"
    and s1: "stack1 = (if l < j then (l, j) # stack else stack)"
    and s2: "stack2 = (if i < r then (i, r) # stack1 else stack1)"
  shows "qinv stack2 a'"
proof -
  have len: "length a' = length a" using ip by (simp add: iperm_def)
  have l0: "0 \<le> l" and rn: "r < int (length a)" using q by (simp_all add: qinv_def)
  have bd: "\<forall>(l', r') \<in> set stack. 0 \<le> l' \<and> r' < int (length a)"
    using q by (simp add: qinv_def)
  have dj: "\<forall>(l', r') \<in> set stack. r < l' \<or> r' < l" and ds: "disj stack"
    using q by (simp_all add: qinv_def)
  have q3: "\<forall>p q. 0 \<le> p \<and> p < q \<and> q < int (length a) \<and>
             \<not> (\<exists>(l', r') \<in> set ((l, r) # stack). l' \<le> p \<and> q \<le> r') \<longrightarrow> elem a p \<le> elem a q"
    using q by (simp add: qinv_def)
  have old: "elem a p \<le> elem a q"
    if "0 \<le> p" "p < q" "q < int (length a)" "\<not> (l \<le> p \<and> q \<le> r)"
       "\<forall>(l', r') \<in> set stack. \<not> (l' \<le> p \<and> q \<le> r')" for p q
  proof -
    have "\<not> (\<exists>(l', r') \<in> set ((l, r) # stack). l' \<le> p \<and> q \<le> r')" using that(4,5) by auto
    with q3 that(1,2,3) show ?thesis by blast
  qed
  have sub: "set stack2 \<subseteq> {(l, j), (i, r)} \<union> set stack" "set stack \<subseteq> set stack2"
    using s1 s2 by auto
  have 1: "\<forall>(l', r') \<in> set stack2. 0 \<le> l' \<and> r' < int (length a')"
    using sub(1) bd l0 rn b len by auto
  have 2: "disj stack2"
    using s1 s2 dj ds b by auto
  have 3: "elem a' p \<le> elem a' q"
    if pq: "0 \<le> p" "p < q" "q < int (length a')"
      and no: "\<not> (\<exists>(l', r') \<in> set stack2. l' \<le> p \<and> q \<le> r')" for p q
  proof -
    have n1: "\<not> (l \<le> p \<and> q \<le> j)" using no s1 s2 pq by (auto split: if_splits)
    have n2: "\<not> (i \<le> p \<and> q \<le> r)" using no s1 s2 pq by (auto split: if_splits)
    have n3: "\<forall>(l', r') \<in> set stack. \<not> (l' \<le> p \<and> q \<le> r')" using no sub(2) by auto
    have rp: "in_range (length a) p" and rq: "in_range (length a) q"
      using pq len by (simp_all add: in_range_def)
    show ?thesis
    proof (cases "l \<le> p \<and> q \<le> r")
      case True
      with n1 n2 have "j < q" "p < i" by simp_all
      with True pq pi have "elem a' p \<le> pv" "pv \<le> elem a' q" by (simp_all add: part_inv_def)
      then show ?thesis by simp
    next
      case False
      show ?thesis
      proof (cases "l \<le> p \<and> p \<le> r")
        case pin: True
        with False have qr: "r < q" by simp
        then have eq: "elem a' q = elem a q" using ip rq by (simp add: iperm_def)
        obtain p' where p': "l \<le> p'" "p' \<le> r" "elem a' p = elem a p'"
          using ip pin unfolding iperm_def by metis
        have "\<forall>(l', r') \<in> set stack. \<not> (l' \<le> p' \<and> q \<le> r')"
          using dj p' qr by force
        from old [of p' q] this p' qr l0 pq len have "elem a p' \<le> elem a q" by simp
        with eq p' show ?thesis by simp
      next
        case pout: False
        then have ep: "elem a' p = elem a p" using ip rp by (auto simp: iperm_def)
        show ?thesis
        proof (cases "l \<le> q \<and> q \<le> r")
          case qin: True
          with pout pq have pl: "p < l" by simp
          obtain q' where q': "l \<le> q'" "q' \<le> r" "elem a' q = elem a q'"
            using ip qin unfolding iperm_def by metis
          have "\<forall>(l', r') \<in> set stack. \<not> (l' \<le> p \<and> q' \<le> r')"
            using dj q' pl lr by force
          from old [of p q'] this q' pl rn pq have "elem a p \<le> elem a q'" by simp
          with ep q' show ?thesis by simp
        next
          case qout: False
          then have eq: "elem a' q = elem a q" using ip rq by (auto simp: iperm_def)
          from old [of p q] n3 pout pq len have "elem a p \<le> elem a q" by auto
          with ep eq show ?thesis by simp
        qed
      qed
    qed
  qed
  from 1 2 3 show ?thesis unfolding qinv_def by blast
qed

lemma quick_loop_correct:
  "qinv stack (arr st) \<Longrightarrow>
   sorted (arr (quick_loop stack st)) \<and> mset (arr (quick_loop stack st)) = mset (arr st)"
proof (induction stack st rule: quick_loop.induct)
  case (1 st)
  then show ?case by (simp add: quick_loop.simps qinv_sorted)
next
  case (2 l r stack st)
  show ?case
  proof (cases "l \<ge> r")
    case True
    with 2 qinv_skip [OF "2.prems" True] show ?thesis by (simp add: quick_loop.simps)
  next
    case False
    let ?m = "(l + r) div 2"
    let ?p = "rd (arr st) ?m"
    have l0: "0 \<le> l" and rn: "r < int (length (arr st))"
      using "2.prems" by (simp_all add: qinv_def)
    have "in_range (length (arr st)) ?m" using False l0 rn by (simp add: in_range_def)
    then have pv: "?p = Some (elem (arr st) ?m)" by (rule rd_elem)
    obtain i j st1 where p: "partition_loop ?p l r st = (i, j, st1)"
      by (cases "partition_loop ?p l r st")
    have mono: "l \<le> i" "j \<le> r" "j < i" using partition_loop_mono [OF p] by simp_all
    have post: "part_inv (elem (arr st) ?m) l r i j (arr st1) \<and> iperm l r (arr st) (arr st1)"
      using partition_loop_post [OF p [unfolded pv] l0 rn order_refl order_refl]
      by (simp add: part_inv_def)
    let ?s1 = "if l < j then (l, j) # stack else stack"
    let ?s2 = "if i < r then (i, r) # ?s1 else ?s1"
    have lr: "l < r" using False by simp
    have qi: "qinv ?s2 (arr st1)"
      by (rule qinv_step [OF "2.prems" lr conjunct1 [OF post] conjunct2 [OF post] mono refl refl])
    have eq: "quick_loop ((l, r) # stack) st = quick_loop ?s2 st1"
      using False p by (subst quick_loop.simps) (simp add: Let_def)
    have "mset (arr st1) = mset (arr st)" using post by (simp add: iperm_def)
    with "2.IH"(2) [OF False refl p [symmetric] refl refl refl refl qi] show ?thesis
      unfolding eq by simp
  qed
qed

lemma quickGen_sorts: "sorted (arr (quickGen A)) \<and> mset (arr (quickGen A)) = mset A"
proof -
  have "qinv [(0, int (length A) - 1)] (arr (initial A))"
    by (auto simp: qinv_def)
  from quick_loop_correct [OF this] show ?thesis by (simp add: quickGen_def)
qed

subsection \<open>mergeGen\<close>

lemma merge_fn_Nil2 [simp]: "merge_fn xs [] = xs"
  by (cases xs) simp_all

lemma mset_merge_fn: "mset (merge_fn xs ys) = mset xs + mset ys"
  by (induction xs ys rule: merge_fn.induct) simp_all

lemma set_merge_fn: "set (merge_fn xs ys) = set xs \<union> set ys"
  using mset_merge_fn [of xs ys] by (metis set_mset_mset set_mset_union)

lemma sorted_merge_fn: "sorted xs \<Longrightarrow> sorted ys \<Longrightarrow> sorted (merge_fn xs ys)"
  by (induction xs ys rule: merge_fn.induct) (auto simp: set_merge_fn)

lemma merge_fn_sort: "merge_fn (sort xs) (sort ys) = sort (xs @ ys)"
  by (rule properties_for_sort [symmetric]) (simp_all add: mset_merge_fn sorted_merge_fn)

lemma wr_append:
  "Z \<noteq> [] \<Longrightarrow> int (length P) = k \<Longrightarrow> wr (P @ Z) k v = (P @ [v]) @ tl Z"
  by (cases Z) (auto simp: wr_def)

lemma merge_left_dec:
  assumes "merge_left left i k st = (i', k', st')" "arr st = P @ Z" "int (length P) = k"
    "length left - i \<le> length Z"
  shows "arr st' = P @ drop i left @ drop (length left - i) Z \<and> k' = k + int (length left - i)"
  using assms
proof (induction left i k st arbitrary: P Z rule: merge_left.induct)
  case (1 left i k st)
  show ?case
  proof (cases "i < length left")
    case False
    with "1.prems" show ?thesis by (simp add: merge_left.simps)
  next
    case True
    let ?v = "left ! i"
    let ?st2 = "yield (SetV k ?v) (store k ?v st)"
    have z: "Z \<noteq> []" using True "1.prems"(4) by auto
    have a2: "arr ?st2 = (P @ [?v]) @ tl Z"
      using wr_append [OF z "1.prems"(3)] "1.prems"(2) by simp
    have r: "merge_left left (i + 1) (k + 1) ?st2 = (i', k', st')"
      using "1.prems"(1) True by (subst (asm) merge_left.simps) simp
    have "arr st' = (P @ [?v]) @ drop (i + 1) left @ drop (length left - (i + 1)) (tl Z) \<and>
          k' = k + 1 + int (length left - (i + 1))"
      using "1.IH" [OF True r a2] "1.prems"(3,4) True by simp
    moreover have "drop i left = ?v # drop (i + 1) left"
      using True by (simp add: Cons_nth_drop_Suc)
    moreover have "drop (length left - (i + 1)) (tl Z) = drop (length left - i) Z"
      using True by (simp add: drop_Suc [symmetric] Suc_diff_Suc del: drop_Suc)
    ultimately show ?thesis using True by simp
  qed
qed

lemma merge_right_dec:
  assumes "merge_right right j k st = (j', k', st')" "arr st = P @ Z" "int (length P) = k"
    "length right - j \<le> length Z"
  shows "arr st' = P @ drop j right @ drop (length right - j) Z \<and> k' = k + int (length right - j)"
  using assms
proof (induction right j k st arbitrary: P Z rule: merge_right.induct)
  case (1 right j k st)
  show ?case
  proof (cases "j < length right")
    case False
    with "1.prems" show ?thesis by (simp add: merge_right.simps)
  next
    case True
    let ?v = "right ! j"
    let ?st2 = "yield (SetV k ?v) (store k ?v st)"
    have z: "Z \<noteq> []" using True "1.prems"(4) by auto
    have a2: "arr ?st2 = (P @ [?v]) @ tl Z"
      using wr_append [OF z "1.prems"(3)] "1.prems"(2) by simp
    have r: "merge_right right (j + 1) (k + 1) ?st2 = (j', k', st')"
      using "1.prems"(1) True by (subst (asm) merge_right.simps) simp
    have "arr st' = (P @ [?v]) @ drop (j + 1) right @ drop (length right - (j + 1)) (tl Z) \<and>
          k' = k + 1 + int (length right - (j + 1))"
      using "1.IH" [OF True r a2] "1.prems"(3,4) True by simp
    moreover have "drop j right = ?v # drop (j + 1) right"
      using True by (simp add: Cons_nth_drop_Suc)
    moreover have "drop (length right - (j + 1)) (tl Z) = drop (length right - j) Z"
      using True by (simp add: drop_Suc [symmetric] Suc_diff_Suc del: drop_Suc)
    ultimately show ?thesis using True by simp
  qed
qed


lemma merge_drains_dec:
  assumes "arr st = P @ Z" "int (length P) = k" "(length left - i) + (length right - j) \<le> length Z"
    "\<not> (i < length left \<and> j < length right)"
  shows "arr (merge_drains left right (i, j, k, st)) =
           P @ merge_fn (drop i left) (drop j right) @ drop ((length left - i) + (length right - j)) Z"
proof -
  obtain i' k' st2 where l: "merge_left left i k st = (i', k', st2)"
    by (cases "merge_left left i k st")
  obtain j' k'' st3 where r: "merge_right right j k' st2 = (j', k'', st3)"
    by (cases "merge_right right j k' st2")
  let ?n1 = "length left - i" and ?n2 = "length right - j"
  have 1: "arr st2 = P @ drop i left @ drop ?n1 Z" "k' = k + int ?n1"
    using merge_left_dec [OF l assms(1,2)] assms(3) by simp_all
  have "arr st2 = (P @ drop i left) @ drop ?n1 Z" using 1 by simp
  moreover have "int (length (P @ drop i left)) = k'" using 1 assms(2) by simp
  moreover have "?n2 \<le> length (drop ?n1 Z)" using assms(3) by simp
  ultimately have 2: "arr st3 = (P @ drop i left) @ drop j right @ drop ?n2 (drop ?n1 Z)"
    using merge_right_dec [OF r] by blast
  have m: "merge_fn (drop i left) (drop j right) = drop i left @ drop j right"
    using assms(4) by (cases "i < length left") simp_all
  show ?thesis using 2 l r m by (simp add: merge_drains_def add.commute)
qed

lemma merge_both_dec:
  assumes "arr st = P @ Z" "int (length P) = k" "(length left - i) + (length right - j) \<le> length Z"
  shows "arr (merge_drains left right (merge_both l m left right i j k st)) =
           P @ merge_fn (drop i left) (drop j right) @ drop ((length left - i) + (length right - j)) Z"
  using assms
proof (induction l m left right i j k st arbitrary: P Z rule: merge_both.induct)
  case (1 l m left right i j k st)
  show ?case
  proof (cases "i < length left \<and> j < length right")
    case False
    then have "merge_both l m left right i j k st = (i, j, k, st)"
      by (subst merge_both.simps) auto
    with merge_drains_dec [OF "1.prems" False] show ?thesis by simp
  next
    case True
    let ?st1 = "test (l + int i) (Some (m + 1 + int j))
                  (yield (Compare (l + int i) (Some (m + 1 + int j))) st)"
    have z: "Z \<noteq> []" using True "1.prems"(3) by auto
    have di: "drop i left = left ! i # drop (i + 1) left"
      using True by (simp add: Cons_nth_drop_Suc)
    have dj: "drop j right = right ! j # drop (j + 1) right"
      using True by (simp add: Cons_nth_drop_Suc)
    show ?thesis
    proof (cases "left ! i \<le> right ! j")
      case le: True
      let ?v = "left ! i"
      let ?st2 = "yield (SetV k ?v) (store k ?v ?st1)"
      have a2: "arr ?st2 = (P @ [?v]) @ tl Z"
        using wr_append [OF z "1.prems"(2)] "1.prems"(1) by simp
      have eq: "merge_both l m left right i j k st = merge_both l m left right (i + 1) j (k + 1) ?st2"
        using True le by (subst merge_both.simps) (simp add: Let_def)
      have "arr (merge_drains left right (merge_both l m left right (i + 1) j (k + 1) ?st2)) =
              (P @ [?v]) @ merge_fn (drop (i + 1) left) (drop j right) @
              drop ((length left - (i + 1)) + (length right - j)) (tl Z)"
        using "1.IH"(1) [OF True refl le a2] "1.prems"(2,3) True by simp
      moreover have "drop ((length left - (i + 1)) + (length right - j)) (tl Z) =
                     drop ((length left - i) + (length right - j)) Z"
        using True by (simp add: drop_Suc [symmetric] Suc_diff_Suc del: drop_Suc)
      moreover have "merge_fn (drop i left) (drop j right) =
                     ?v # merge_fn (drop (i + 1) left) (drop j right)"
        using le by (subst di, subst dj, subst dj) simp
      ultimately show ?thesis unfolding eq by simp
    next
      case gt: False
      let ?v = "right ! j"
      let ?st2 = "yield (SetV k ?v) (store k ?v ?st1)"
      have a2: "arr ?st2 = (P @ [?v]) @ tl Z"
        using wr_append [OF z "1.prems"(2)] "1.prems"(1) by simp
      have eq: "merge_both l m left right i j k st = merge_both l m left right i (j + 1) (k + 1) ?st2"
        using True gt by (subst merge_both.simps) (simp add: Let_def)
      have "arr (merge_drains left right (merge_both l m left right i (j + 1) (k + 1) ?st2)) =
              (P @ [?v]) @ merge_fn (drop i left) (drop (j + 1) right) @
              drop ((length left - i) + (length right - (j + 1))) (tl Z)"
        using "1.IH"(2) [OF True refl gt a2] "1.prems"(2,3) True by simp
      moreover have "drop ((length left - i) + (length right - (j + 1))) (tl Z) =
                     drop ((length left - i) + (length right - j)) Z"
        using True by (simp add: drop_Suc [symmetric] Suc_diff_Suc del: drop_Suc)
      moreover have "merge_fn (drop i left) (drop j right) =
                     ?v # merge_fn (drop i left) (drop (j + 1) right)"
        using gt by (subst di, subst di, subst dj) simp
      ultimately show ?thesis unfolding eq by simp
    qed
  qed
qed

lemma merge_phase_drains:
  "merge_phase l m r st =
     merge_drains (js_slice (arr st) l (m + 1)) (js_slice (arr st) (m + 1) (r + 1))
       (merge_both l m (js_slice (arr st) l (m + 1)) (js_slice (arr st) (m + 1) (r + 1)) 0 0 l st)"
  by (simp add: merge_phase_def merge_drains_def Let_def split: prod.splits)

lemma merge_phase_dec:
  assumes "arr st = X @ L @ R @ Y" "int (length X) = l" "int (length L) = m + 1 - l"
    "int (length R) = r - m"
  shows "arr (merge_phase l m r st) = X @ merge_fn L R @ Y"
proof -
  have l0: "0 \<le> l" using assms(2) by auto
  have n: "nat l = length X" "nat (m + 1 - l) = length L" "nat (m + 1) = length X + length L"
    "nat (r - m) = length R"
    using assms by auto
  have b: "l \<le> m + 1" "m + 1 \<le> r + 1" "r + 1 \<le> int (length (arr st))"
    using assms by auto
  have sl: "js_slice (arr st) l (m + 1) = L"
    using js_slice_eq [OF l0 b(1), of "arr st"] b assms(1) n by simp
  have sr: "js_slice (arr st) (m + 1) (r + 1) = R"
    using js_slice_eq [of "m + 1" "r + 1" "arr st"] b l0 assms(1) n by simp
  have "arr (merge_drains L R (merge_both l m L R 0 0 l st)) =
          X @ merge_fn (drop 0 L) (drop 0 R) @ drop ((length L - 0) + (length R - 0)) (L @ R @ Y)"
    by (rule merge_both_dec) (use assms in simp_all)
  then show ?thesis by (simp add: merge_phase_drains sl sr)
qed

lemma mergeRange_dec:
  assumes "arr st = X @ S @ Y" "int (length X) = l" "int (length S) = r + 1 - l"
  shows "arr (mergeRange l r st) = X @ sort S @ Y"
  using assms
proof (induction l r st arbitrary: X S Y rule: mergeRange.induct)
  case (1 l r st)
  show ?case
  proof (cases "l \<ge> r")
    case True
    with "1.prems"(3) have "length S \<le> 1" by simp
    then have "sort S = S" by (cases S) (simp_all add: )
    with True "1.prems" show ?thesis by (simp add: mergeRange.simps)
  next
    case False
    let ?m = "(l + r) div 2"
    have m: "l \<le> ?m" "?m < r" using False by simp_all
    let ?n1 = "nat (?m + 1 - l)"
    let ?S1 = "take ?n1 S" and ?S2 = "drop ?n1 S"
    have l1: "int (length ?S1) = ?m + 1 - l" using "1.prems"(3) m by simp
    have l2: "int (length ?S2) = r - ?m" using "1.prems"(3) m by simp
    let ?st1 = "mergeRange l ?m st"
    let ?st2 = "mergeRange (?m + 1) r ?st1"
    have a0: "arr st = X @ ?S1 @ (?S2 @ Y)" using "1.prems"(1) by simp
    have a1: "arr ?st1 = X @ sort ?S1 @ (?S2 @ Y)"
      by (rule "1.IH"(1) [OF False refl a0 "1.prems"(2) l1])
    have a1': "arr ?st1 = (X @ sort ?S1) @ ?S2 @ Y" using a1 by simp
    have lx: "int (length (X @ sort ?S1)) = ?m + 1" using "1.prems"(2) l1 by simp
    have l2': "int (length ?S2) = r + 1 - (?m + 1)" using l2 by simp
    have a2: "arr ?st2 = (X @ sort ?S1) @ sort ?S2 @ Y"
      by (rule "1.IH"(2) [OF False refl refl a1' lx l2'])
    have a2': "arr ?st2 = X @ sort ?S1 @ sort ?S2 @ Y" using a2 by simp
    have "arr (merge_phase l ?m r ?st2) = X @ merge_fn (sort ?S1) (sort ?S2) @ Y"
      by (rule merge_phase_dec [OF a2' "1.prems"(2)]) (use l1 l2 in simp_all)
    then have "arr (merge_phase l ?m r ?st2) = X @ sort S @ Y"
      by (simp add: merge_fn_sort)
    then show ?thesis using False by (subst mergeRange.simps) (simp add: Let_def)
  qed
qed

lemma mergeGen_sorts: "sorted (arr (mergeGen A)) \<and> mset (arr (mergeGen A)) = mset A"
proof -
  have "arr (mergeRange 0 (int (length A) - 1) (initial A)) = [] @ sort A @ []"
    by (rule mergeRange_dec) simp_all
  then show ?thesis by (simp add: mergeGen_def)
qed

subsection \<open>heapGen\<close>

lemma sift_stop:
  assumes "heap_except lo e x a"
    "\<forall>c. (c = 2 * x + 1 \<or> c = 2 * x + 2) \<and> c \<le> e \<longrightarrow> elem a c \<le> elem a x"
  shows "heap_from lo e a"
  unfolding heap_from_def
proof (intro allI impI)
  fix k assume k: "lo \<le> k \<and> k \<le> e"
  show "node_ok e a k"
  proof (cases "k = x")
    case True
    with assms(2) show ?thesis by (simp add: node_ok_def)
  next
    case False
    with assms(1) k show ?thesis by (simp add: heap_except_def)
  qed
qed

lemma sift_swap:
  assumes he: "heap_except lo e x a" and b: "0 \<le> lo" "lo \<le> x" "e < int (length a)"
    and c1: "c1 = 2 * x + 1 \<or> c1 = 2 * x + 2" "c1 \<le> e"
    and big: "\<forall>c. (c = 2 * x + 1 \<or> c = 2 * x + 2) \<and> c \<le> e \<longrightarrow> elem a c \<le> elem a c1"
    and lt: "elem a x < elem a c1"
  shows "heap_except lo e c1 (swap_arr a x c1)"
proof -
  let ?a' = "swap_arr a x c1"
  have rx: "in_range (length a) x" and rc: "in_range (length a) c1"
    using b c1 by (auto simp: in_range_def)
  have el: "elem ?a' y = (if y = x then elem a c1 else if y = c1 then elem a x else elem a y)"
    if "0 \<le> y" "y \<le> e" for y
    using elem_swap_arr [OF rx rc, of y] that b by (simp add: in_range_def)
  have x0: "0 \<le> x" using b by simp
  have nodes: "node_ok e ?a' k" if k: "lo \<le> k" "k \<le> e" "k \<noteq> c1" for k
  proof (cases "k = x")
    case True
    have "elem ?a' c \<le> elem ?a' x" if c: "c = 2 * x + 1 \<or> c = 2 * x + 2" "c \<le> e" for c
    proof -
      have ex: "elem ?a' x = elem a c1" using el [of x] x0 c1 by auto
      have "c \<noteq> x" using c x0 by auto
      then have "elem ?a' c = (if c = c1 then elem a x else elem a c)"
        using el [of c] c x0 by auto
      with ex big lt c show ?thesis by (auto simp: less_imp_le)
    qed
    with True show ?thesis by (auto simp: node_ok_def)
  next
    case False
    have k0: "0 \<le> k" using k b by simp
    have ok: "node_ok e a k" using he k False by (simp add: heap_except_def)
    have ek: "elem ?a' k = elem a k" using el [of k] k k0 False by simp
    have "elem ?a' c \<le> elem a k" if c: "c = 2 * k + 1 \<or> c = 2 * k + 2" "c \<le> e" for c
    proof (cases "c = x")
      case True
      then have "elem ?a' c = elem a c1" using el [of c] c k0 by auto
      moreover have "elem a c1 \<le> elem a k"
        using he k(1) c True c1 unfolding heap_except_def by blast
      ultimately show ?thesis by simp
    next
      case nx: False
      have "c \<noteq> c1" using c c1 False by auto
      then have "elem ?a' c = elem a c" using el [of c] c k0 nx by auto
      with ok c show ?thesis by (auto simp: node_ok_def)
    qed
    with ek show ?thesis by (auto simp: node_ok_def)
  qed
  have bridge: "elem ?a' c \<le> elem ?a' k"
    if h: "lo \<le> k" "c1 = 2 * k + 1 \<or> c1 = 2 * k + 2" "c = 2 * c1 + 1 \<or> c = 2 * c1 + 2" "c \<le> e"
    for k c
  proof -
    have kx: "k = x" using h(2) c1(1) by auto
    have "c \<noteq> x" "c \<noteq> c1" "0 \<le> c" using h(3) c1(1) x0 by auto
    then have ec: "elem ?a' c = elem a c" using el [of c] h(4) by simp
    have ex: "elem ?a' x = elem a c1" using el [of x] x0 c1 by auto
    have "c1 \<noteq> x" using c1(1) x0 by auto
    moreover have "lo \<le> c1" using c1(1) b x0 by auto
    ultimately have "node_ok e a c1" using he c1(2) by (simp add: heap_except_def)
    then have "elem a c \<le> elem a c1" using h(3,4) by (auto simp: node_ok_def)
    with ec ex kx show ?thesis by simp
  qed
  show ?thesis unfolding heap_except_def using nodes bridge by blast
qed

lemma siftDown_heap:
  assumes "heap_except lo e x (arr st)" "0 \<le> lo" "lo \<le> x" "e < int (length (arr st))"
  shows "heap_from lo e (arr (siftDown x e st)) \<and> iperm lo e (arr st) (arr (siftDown x e st))"
  using assms
proof (induction x e st rule: siftDown.induct)
  case (1 x e st)
  let ?a = "arr st"
  let ?child = "2 * x + 1"
  have x0: "0 \<le> x" using "1.prems" by simp
  show ?case
  proof (cases "?child > e")
    case True
    have "heap_from lo e ?a"
      by (rule sift_stop [OF "1.prems"(1)]) (use True in auto)
    with True show ?thesis by (simp add: siftDown.simps)
  next
    case False
    let ?pair = "if ?child + 1 \<le> e then
                   let s = test ?child (Some (?child + 1)) (yield (Compare ?child (Some (?child + 1))) st)
                   in (if js_lt (rd (arr s) ?child) (rd (arr s) (?child + 1)) then ?child + 1 else ?child, s)
                 else (?child, st)"
    obtain c1 st1 where p: "?pair = (c1, st1)" by (cases ?pair)
    have a1: "arr st1 = ?a" using p by (auto simp: Let_def split: if_splits)
    have rc: "in_range (length ?a) ?child" using False x0 "1.prems"(4) by (simp add: in_range_def)
    have c1: "c1 = 2 * x + 1 \<or> c1 = 2 * x + 2" "c1 \<le> e"
      using p False by (auto simp: Let_def split: if_splits)
    have big: "\<forall>c. (c = 2 * x + 1 \<or> c = 2 * x + 2) \<and> c \<le> e \<longrightarrow> elem ?a c \<le> elem ?a c1"
    proof (cases "?child + 1 \<le> e")
      case True
      then have rc2: "in_range (length ?a) (?child + 1)"
        using x0 "1.prems"(4) by (simp add: in_range_def)
      have "c1 = (if elem ?a ?child < elem ?a (?child + 1) then ?child + 1 else ?child)"
        using p True rd_elem [OF rc] rd_elem [OF rc2] by (simp add: Let_def)
      then show ?thesis by (auto simp: less_imp_le add.commute [of "2 * x" 2])
    next
      case False
      with p have "c1 = ?child" by simp
      with False show ?thesis by auto
    qed
    let ?st2 = "test x (Some c1) (yield (Compare x (Some c1)) st1)"
    have rx: "in_range (length ?a) x" and rc1: "in_range (length ?a) c1"
      using x0 c1 "1.prems"(4) by (auto simp: in_range_def)
    show ?thesis
    proof (cases "js_lt (rd (arr ?st2) x) (rd (arr ?st2) c1)")
      case lt: True
      then have l: "elem ?a x < elem ?a c1" using a1 rd_elem [OF rx] rd_elem [OF rc1] by simp
      let ?st3 = "yield (Swap x c1) (swap x c1 ?st2)"
      have a3: "arr ?st3 = swap_arr ?a x c1" using a1 by simp
      have he: "heap_except lo e c1 (arr ?st3)"
        unfolding a3 by (rule sift_swap [OF "1.prems"(1,2,3,4) c1 big l])
      have lc: "lo \<le> c1" using c1(1) "1.prems"(2,3) by auto
      have "heap_from lo e (arr (siftDown c1 e ?st3)) \<and>
            iperm lo e (arr ?st3) (arr (siftDown c1 e ?st3))"
        using "1.IH" [OF refl False refl p [symmetric] refl lt he "1.prems"(2) lc] "1.prems"(4) a1
        by simp
      moreover have "iperm lo e ?a (arr ?st3)"
        unfolding a3 using "1.prems" c1 lc x0 by (intro iperm_swap) auto
      moreover have "siftDown x e st = siftDown c1 e ?st3"
        using False p lt by (subst siftDown.simps) (simp add: Let_def del: if_split cong: if_cong)
      ultimately show ?thesis by (auto intro: iperm_trans)
    next
      case nlt: False
      then have l: "elem ?a c1 \<le> elem ?a x" using a1 rd_elem [OF rx] rd_elem [OF rc1] by simp
      have "heap_from lo e ?a"
      proof (rule sift_stop [OF "1.prems"(1)], intro allI impI)
        fix c assume "(c = 2 * x + 1 \<or> c = 2 * x + 2) \<and> c \<le> e"
        with big have "elem ?a c \<le> elem ?a c1" by blast
        with l show "elem ?a c \<le> elem ?a x" by simp
      qed
      moreover have "siftDown x e st = ?st2"
        using False p nlt by (subst siftDown.simps) (simp add: Let_def del: if_split cong: if_cong)
      ultimately show ?thesis using a1 by simp
    qed
  qed
qed

lemma heap_build_heap:
  assumes "heap_from (start + 1) (n - 1) (arr st)" "- 1 \<le> start" "n = int (length (arr st))"
  shows "heap_from 0 (n - 1) (arr (heap_build n start st)) \<and>
         mset (arr (heap_build n start st)) = mset (arr st)"
  using assms
proof (induction n start st rule: heap_build.induct)
  case (1 n start st)
  show ?case
  proof (cases "start \<ge> 0")
    case False
    with "1.prems" have "start = - 1" by simp
    with "1.prems" False show ?thesis by (simp add: heap_build.simps)
  next
    case True
    let ?st1 = "siftDown start (n - 1) st"
    have he: "heap_except start (n - 1) start (arr st)"
      unfolding heap_except_def
    proof (intro conjI allI impI)
      fix k assume "start \<le> k \<and> k \<le> n - 1 \<and> k \<noteq> start"
      then show "node_ok (n - 1) (arr st) k" using "1.prems"(1) by (simp add: heap_from_def)
    next
      fix k c
      assume "start \<le> k \<and> (start = 2 * k + 1 \<or> start = 2 * k + 2) \<and>
              (c = 2 * start + 1 \<or> c = 2 * start + 2) \<and> c \<le> n - 1"
      with True have False by auto
      then show "elem (arr st) c \<le> elem (arr st) k" ..
    qed
    have 1: "heap_from start (n - 1) (arr ?st1) \<and> iperm start (n - 1) (arr st) (arr ?st1)"
      by (rule siftDown_heap [OF he True order_refl]) (use "1.prems" in simp)
    then have len: "length (arr ?st1) = length (arr st)" and ms: "mset (arr ?st1) = mset (arr st)"
      by (simp_all add: iperm_def)
    have "heap_from 0 (n - 1) (arr (heap_build n (start - 1) ?st1)) \<and>
          mset (arr (heap_build n (start - 1) ?st1)) = mset (arr ?st1)"
      using "1.IH" [OF True] 1 True "1.prems"(3) len by simp
    with ms True show ?thesis by (simp add: heap_build.simps [of n start st])
  qed
qed

lemma heap_root_max:
  assumes "heap_from 0 e a"
  shows "0 \<le> k \<Longrightarrow> k \<le> e \<Longrightarrow> elem a k \<le> elem a 0"
proof (induction "nat k" arbitrary: k rule: less_induct)
  case less
  show ?case
  proof (cases "k = 0")
    case True
    then show ?thesis by simp
  next
    case False
    let ?p = "(k - 1) div 2"
    have p: "0 \<le> ?p" "?p < k" "k = 2 * ?p + 1 \<or> k = 2 * ?p + 2"
      using False less.prems by auto
    have "node_ok e a ?p" using assms p less.prems by (simp add: heap_from_def)
    then have "elem a k \<le> elem a ?p" using p(3) less.prems(2) by (auto simp: node_ok_def)
    moreover have "elem a ?p \<le> elem a 0"
      using less.hyps [of ?p] p less.prems by simp
    ultimately show ?thesis by simp
  qed
qed

lemma itail_iperm:
  assumes "itail k a" "iperm lo hi a b" "hi < k" "0 \<le> lo"
  shows "itail k b"
  unfolding itail_def
proof (intro allI impI)
  fix p q assume pq: "0 \<le> p \<and> p < q \<and> q < int (length b) \<and> k \<le> q"
  have len: "length b = length a" using assms(2) by (simp add: iperm_def)
  have q: "elem b q = elem a q"
    using assms(2,3) pq len unfolding iperm_def by (auto simp: in_range_def)
  obtain p' where p': "0 \<le> p'" "p' < q" "elem b p = elem a p'"
  proof (cases "lo \<le> p \<and> p \<le> hi")
    case True
    then obtain p' where h: "lo \<le> p'" "p' \<le> hi" "elem b p = elem a p'"
      using assms(2) unfolding iperm_def by metis
    from h assms(3,4) pq have "0 \<le> p'" "p' < q" by simp_all
    with h(3) that show ?thesis by blast
  next
    case False
    then have "elem b p = elem a p"
      using assms(2) pq len unfolding iperm_def by (auto simp: in_range_def)
    with pq that show ?thesis by blast
  qed
  with assms(1) pq len q show "elem b p \<le> elem b q" by (auto simp: itail_def)
qed

lemma itail_sorted:
  assumes "itail 1 a"
  shows "sorted a"
proof -
  have "a ! p \<le> a ! q" if "p < q" "q < length a" for p q
  proof -
    have "elem a (int p) \<le> elem a (int q)"
      using assms that unfolding itail_def by (metis (no_types) of_nat_0_le_iff of_nat_less_iff
          int_one_le_iff_zero_less zero_less_iff_neq_zero not_less_zero of_nat_0_less_iff less_nat_zero_code gr_implies_not0)
    then show ?thesis by (simp add: elem_def)
  qed
  then show ?thesis by (simp add: sorted_iff_nth_mono_less)
qed

lemma extract_swap:
  assumes h: "heap_from 0 e a" and t: "itail (e + 1) a" and e: "0 < e" "e < int (length a)"
  shows "itail e (swap_arr a 0 e) \<and> heap_except 0 (e - 1) 0 (swap_arr a 0 e)"
proof -
  let ?a' = "swap_arr a 0 e"
  have r0: "in_range (length a) 0" and re: "in_range (length a) e"
    using e by (auto simp: in_range_def)
  have el: "elem ?a' y = (if y = 0 then elem a e else if y = e then elem a 0 else elem a y)"
    if "0 \<le> y" "y < int (length a)" for y
    using elem_swap_arr [OF r0 re, of y] that by (simp add: in_range_def)
  have mx: "elem a k \<le> elem a 0" if "0 \<le> k" "k \<le> e" for k
    using heap_root_max [OF h that] .
  have tl: "elem a p \<le> elem a q" if "0 \<le> p" "p < q" "q < int (length a)" "e + 1 \<le> q" for p q
    using t that by (simp add: itail_def)
  have 1: "itail e ?a'"
    unfolding itail_def
  proof (intro allI impI)
    fix p q assume pq: "0 \<le> p \<and> p < q \<and> q < int (length ?a') \<and> e \<le> q"
    then have pq': "0 \<le> p" "p < q" "q < int (length a)" "e \<le> q" by simp_all
    show "elem ?a' p \<le> elem ?a' q"
    proof (cases "q = e")
      case True
      then have "elem ?a' q = elem a 0" using el [of q] e by simp
      moreover have "elem ?a' p = (if p = 0 then elem a e else elem a p)"
        using el [of p] pq' True by simp
      ultimately show ?thesis using mx [of p] mx [of e] pq' True e by simp
    next
      case False
      with pq' have q: "e + 1 \<le> q" by simp
      then have eq: "elem ?a' q = elem a q" using el [of q] pq' e by simp
      have "elem ?a' p = elem a (if p = 0 then e else if p = e then 0 else p)"
        using el [of p] pq' by simp
      moreover have "elem a (if p = 0 then e else if p = e then 0 else p) \<le> elem a q"
        using tl [of "if p = 0 then e else if p = e then 0 else p" q] pq' q e by auto
      ultimately show ?thesis using eq by simp
    qed
  qed
  have 2: "heap_except 0 (e - 1) 0 ?a'"
    unfolding heap_except_def
  proof (intro conjI allI impI)
    fix k assume k: "0 \<le> k \<and> k \<le> e - 1 \<and> k \<noteq> 0"
    then have ok: "node_ok e a k" using h by (simp add: heap_from_def)
    have ek: "elem ?a' k = elem a k" using el [of k] k e by simp
    have "elem ?a' c = elem a c" if "c = 2 * k + 1 \<or> c = 2 * k + 2" "c \<le> e - 1" for c
      using el [of c] that k e by auto
    with ok ek show "node_ok (e - 1) ?a' k" by (auto simp: node_ok_def)
  next
    fix k c :: int
    assume "0 \<le> k \<and> ((0::int) = 2 * k + 1 \<or> (0::int) = 2 * k + 2) \<and> (c = 2 * 0 + 1 \<or> c = 2 * 0 + 2) \<and> c \<le> e - 1"
    then have False by presburger
    then show "elem ?a' c \<le> elem ?a' k" ..
  qed
  from 1 2 show ?thesis ..
qed

lemma heap_extract_sorted:
  assumes "heap_from 0 e (arr st)" "itail (e + 1) (arr st)" "e < int (length (arr st))"
  shows "sorted (arr (heap_extract e st)) \<and> mset (arr (heap_extract e st)) = mset (arr st)"
  using assms
proof (induction e st rule: heap_extract.induct)
  case (1 e st)
  show ?case
  proof (cases "e > 0")
    case False
    have "itail 1 (arr st)" using "1.prems"(2) False by (auto simp: itail_def)
    with False show ?thesis by (simp add: heap_extract.simps itail_sorted)
  next
    case True
    let ?st1 = "yield (Swap 0 e) (swap 0 e st)"
    let ?st2 = "siftDown 0 (e - 1) ?st1"
    have sw: "itail e (arr ?st1) \<and> heap_except 0 (e - 1) 0 (arr ?st1)"
      using extract_swap [OF "1.prems"(1,2) True "1.prems"(3)] by simp
    have sd: "heap_from 0 (e - 1) (arr ?st2) \<and> iperm 0 (e - 1) (arr ?st1) (arr ?st2)"
      by (rule siftDown_heap) (use sw "1.prems"(3) in simp_all)
    have it: "itail (e - 1 + 1) (arr ?st2)"
      using itail_iperm [of e "arr ?st1" 0 "e - 1" "arr ?st2"] sw sd by simp
    have len: "length (arr ?st2) = length (arr st)" using sd by (simp add: iperm_def)
    have ms: "mset (arr ?st2) = mset (arr st)" using sd by (simp add: iperm_def)
    have "sorted (arr (heap_extract (e - 1) ?st2)) \<and>
          mset (arr (heap_extract (e - 1) ?st2)) = mset (arr ?st2)"
      using "1.IH" [OF True _ it] sd len "1.prems"(3) by simp
    with ms True show ?thesis by (simp add: heap_extract.simps [of e st])
  qed
qed

lemma heapGen_sorts: "sorted (arr (heapGen A)) \<and> mset (arr (heapGen A)) = mset A"
proof -
  let ?n = "int (length A)"
  let ?st1 = "heap_build ?n ((?n - 2) div 2) (initial A)"
  have h0: "heap_from ((?n - 2) div 2 + 1) (?n - 1) (arr (initial A))"
    unfolding heap_from_def node_ok_def by (intro allI impI conjI) auto
  have b: "- 1 \<le> (?n - 2) div 2" by linarith
  have l0: "?n = int (length (arr (initial A)))" by simp
  have "heap_from 0 (?n - 1) (arr ?st1) \<and> mset (arr ?st1) = mset (arr (initial A))"
    by (rule heap_build_heap [OF h0 b l0])
  then have 1: "heap_from 0 (?n - 1) (arr ?st1) \<and> mset (arr ?st1) = mset A"
    by (simp only: arr_initial)
  then have len: "length (arr ?st1) = length A" by (metis size_mset)
  have it: "itail (?n - 1 + 1) (arr ?st1)" using len by (simp add: itail_def)
  have "sorted (arr (heap_extract (?n - 1) ?st1)) \<and>
        mset (arr (heap_extract (?n - 1) ?st1)) = mset (arr ?st1)"
    by (rule heap_extract_sorted [OF conjunct1 [OF 1] it]) (use len in simp)
  with 1 show ?thesis by (simp add: heapGen_def Let_def)
qed

subsection \<open>radixGen\<close>

lemma radixGen_sorted_scaled:
  assumes nn: "\<forall>x \<in> set A. 0 \<le> x" and big: "\<exists>x \<in> set A. 1 / 1000 \<le> x"
  shows "sorted (arr (radixGen A)) \<and>
         mset (arr (radixGen A)) = mset (map (\<lambda>x. of_int \<lfloor>x * 1000\<rfloor> / 1000) A)"
proof -
  from radixGen_spec [OF nn] obtain st A' where
    r: "radixGen A = yield Done st" and m: "mset A' = mset (scaled A)" and s: "sorted A'"
    and c: "if \<exists>x \<in> set A. 1 / 1000 \<le> x
            then arr st = map (\<lambda>v. of_int v / 1000) A' else arr st = A"
    by blast
  from c big have a: "arr st = map (\<lambda>v. of_int v / 1000) A'" by (simp only: if_True)
  have "sorted_wrt (\<lambda>x y. (of_int x / 1000 :: rat) \<le> of_int y / 1000) A'"
    by (rule sorted_wrt_mono_rel [OF _ s]) (simp add: divide_right_mono)
  then have 1: "sorted (map (\<lambda>v. of_int v / 1000 :: rat) A')" by (simp add: sorted_map)
  have "mset (map (\<lambda>v. of_int v / 1000 :: rat) A') = image_mset (\<lambda>v. of_int v / 1000) (mset A')"
    by simp
  also have "\<dots> = image_mset (\<lambda>v. of_int v / 1000) (mset (scaled A))" by (simp only: m)
  also have "\<dots> = mset (map (\<lambda>v. of_int v / 1000) (scaled A))" by simp
  also have "map (\<lambda>v. of_int v / 1000 :: rat) (scaled A) =
             map (\<lambda>x. of_int \<lfloor>x * 1000\<rfloor> / 1000) A"
    by (simp add: scaled_def)
  finally have 2: "mset (map (\<lambda>v. of_int v / 1000 :: rat) A') =
                   mset (map (\<lambda>x. of_int \<lfloor>x * 1000\<rfloor> / 1000) A)" .
  from 1 2 show ?thesis by (simp add: r a)
qed

lemma radixGen_sorts_exact:
  assumes ex: "\<forall>x \<in> set A. 0 \<le> x \<and> x * 1000 \<in> \<int>"
  shows "sorted (arr (radixGen A)) \<and> mset (arr (radixGen A)) = mset A"
proof -
  have fx: "of_int \<lfloor>x * 1000\<rfloor> / 1000 = x" if "x \<in> set A" for x
  proof -
    from that ex have "x * 1000 \<in> \<int>" by blast
    then have "of_int \<lfloor>x * 1000\<rfloor> = x * 1000" by (rule Ints_cases) simp
    then show ?thesis by simp
  qed
  show ?thesis
  proof (cases "\<exists>x \<in> set A. 1 / 1000 \<le> x")
    case True
    have "map (\<lambda>x. of_int \<lfloor>x * 1000\<rfloor> / 1000) A = A" using fx by (simp add: map_idI)
    with radixGen_sorted_scaled [OF _ True] ex show ?thesis by simp
  next
    case False
    from ex have nn: "\<forall>x \<in> set A. 0 \<le> x" by blast
    from radixGen_spec [OF nn] obtain st A' where
      r: "radixGen A = yield Done st"
      and c: "if \<exists>x \<in> set A. 1 / 1000 \<le> x
              then arr st = map (\<lambda>v. of_int v / 1000) A' else arr st = A"
      by blast
    from c False have a: "arr st = A" by (simp only: if_False)
    have z: "x = 0" if "x \<in> set A" for x
    proof -
      from that ex False have x: "0 \<le> x" "x < 1 / 1000" by auto
      then have "0 \<le> x * 1000" "x * 1000 < 1" by simp_all
      then have "\<lfloor>x * 1000\<rfloor> = 0" by (simp add: floor_eq_iff)
      with fx [OF that] show ?thesis by simp
    qed
    have "sorted_wrt (\<lambda>x y. x \<le> y) A"
      unfolding sorted_wrt_iff_nth_less using z by (metis nth_mem order_refl less_trans)
    then show ?thesis by (simp add: r a)
  qed
qed

section \<open>Sorted permutation (C1)\<close>




section \<open>Index validity (C2)\<close>

text \<open>
  C2. For every input array and every generator of the registry, every index carried by
  a step is a valid index into the working array at the moment the step is yielded, and
  the working array keeps the length of the input. In particular: the two scans of a
  partition of \<^verbatim>\<open>quickGen\<close> over a range \<open>l..r\<close> inside the array inspect positions of
  \<open>l..r\<close> only, and every index of a step yielded by \<^verbatim>\<open>siftDown(start, end)\<close> of
  \<^verbatim>\<open>heapGen\<close> lies in \<open>start..end\<close>, so no child index exceeds the current heap end.
  (\<open>quick_loop\<close> partitions only ranges inside the array, see \<open>quick_loop_ext\<close>.)
\<close>

theorem steps_in_range:
  "(generators name = Some g \<longrightarrow>
      (\<forall>(s, a) \<in> set (yields (trace (g A))). valid_step (length a) s \<and> length a = length A)) \<and>
   (0 \<le> l \<and> l < r \<and> r < int (length (arr st)) \<longrightarrow>
      tests_within l r (added st (snd (snd (partition_loop (rd (arr st) ((l + r) div 2)) l r st))))) \<and>
   (0 \<le> root' \<longrightarrow> steps_within root' end' (added st' (siftDown root' end' st')))"
proof (intro conjI impI ballI)
  fix p
  assume gen: "generators name = Some g" and p: "p \<in> set (yields (trace (g A)))"
  obtain s a where sa: "p = (s, a)" by (cases p)
  obtain st0 where st0: "ext False (initial A) st0" "g A = yield Done st0 \<or> g A = st0"
    using generators_run [OF gen] by blast
  from st0(1) have f: "follows A (trace st0) (arr st0)" by (simp add: ext_def)
  have len: "length (arr st0) = length A" using follows_length [OF f] .
  from st0(2) p sa have "(s, a) \<in> set (yields (trace st0)) \<or> (s, a) = (Done, arr st0)"
    by auto
  then have "valid_step (length a) s \<and> length a = length A"
  proof
    assume "(s, a) \<in> set (yields (trace st0))"
    from follows_valid [OF f this] show ?thesis .
  next
    assume "(s, a) = (Done, arr st0)"
    with len show ?thesis by simp
  qed
  then show "case p of (s, a) \<Rightarrow> valid_step (length a) s \<and> length a = length A"
    unfolding sa prod.case .
next
  assume "0 \<le> l \<and> l < r \<and> r < int (length (arr st))"
  then show "tests_within l r
               (added st (snd (snd (partition_loop (rd (arr st) ((l + r) div 2)) l r st))))"
    by (intro partition_tests_within) simp_all
next
  assume "0 \<le> root'"
  then show "steps_within root' end' (added st' (siftDown root' end' st'))"
    by (rule siftDown_steps_within)
qed

theorem steps_in_range_witness:
  "generators ''quick'' = Some quickGen \<and>
   (Swap 0 1, [1, 3, 2]) \<in> set (yields (trace (quickGen [3, 1, 2]))) \<and>
   valid_step (length [1, 3, 2 :: val]) (Swap 0 1) \<and>
   tests_within 0 2 (added (initial [3, 1, 2])
     (snd (snd (partition_loop (rd (arr (initial [3, 1, 2])) ((0 + 2) div 2)) 0 2 (initial [3, 1, 2]))))) \<and>
   Test 2 None \<in> set (added (initial [3, 1, 2])
     (snd (snd (partition_loop (rd (arr (initial [3, 1, 2])) ((0 + 2) div 2)) 0 2 (initial [3, 1, 2]))))) \<and>
   steps_within 0 2 (added (initial [1, 3, 2]) (siftDown 0 2 (initial [1, 3, 2]))) \<and>
   (Compare 1 (Some 2), [1, 3, 2]) \<in> set (yields (added (initial [1, 3, 2]) (siftDown 0 2 (initial [1, 3, 2]))))"
proof -
  have g: "generators ''quick'' = Some quickGen" by (simp add: generators_def)
  have m: "(Swap 0 1, [1, 3, 2]) \<in> set (yields (trace (quickGen [3, 1, 2])))" by code_simp
  have r: "(0 :: int) \<le> 0 \<and> (0 :: int) < 2 \<and> 2 < int (length (arr (initial [3, 1, 2])))" by simp
  have t: "Test 2 None \<in> set (added (initial [3, 1, 2])
     (snd (snd (partition_loop (rd (arr (initial [3, 1, 2])) ((0 + 2) div 2)) 0 2 (initial [3, 1, 2])))))"
    by code_simp
  have c: "(Compare 1 (Some 2), [1, 3, 2]) \<in>
             set (yields (added (initial [1, 3, 2]) (siftDown 0 2 (initial [1, 3, 2]))))"
    by code_simp
  from steps_in_range [of "''quick''" quickGen "[3, 1, 2]" 0 2 "initial [3, 1, 2]" 0 2 "initial [1, 3, 2]"]
    g m r t c
  show ?thesis by auto
qed

section \<open>Stopping after k steps (C3)\<close>

text \<open>
  C3. For every input array \<open>A\<close>, every generator of the registry and every \<open>k\<close> up to
  the number of steps of the run: after pulling exactly \<open>k\<close> steps and abandoning the
  sequence, the working array is \<open>A\<close> with exactly the swap and set operations among
  those first \<open>k\<close> steps applied in order. So each mutation has happened when its step is
  yielded, and none has happened that a pulled step does not report.
\<close>

theorem pulled_prefix_replay:
  assumes "generators name = Some g" and "k \<le> length (yields (trace (g A)))"
  shows "after_pulls A (trace (g A)) k = replay A (take k (steps_of (trace (g A))))"
proof -
  obtain st where st: "ext False (initial A) st" "g A = yield Done st \<or> g A = st"
    using generators_run [OF assms(1)] by blast
  from st(1) have f: "follows A (trace st) (arr st)" by (simp add: ext_def)
  from st(2) show ?thesis
  proof
    assume g: "g A = yield Done st"
    with follows_done_replay [OF f, of k] assms(2) show ?thesis by simp
  next
    assume "g A = st"
    with follows_replay [OF f, of k] assms(2) show ?thesis by simp
  qed
qed

theorem pulled_prefix_replay_witness:
  "generators ''heap'' = Some heapGen \<and> (3 :: nat) \<le> length (yields (trace (heapGen [1, 3, 2]))) \<and>
   after_pulls [1, 3, 2] (trace (heapGen [1, 3, 2])) 3 =
     replay [1, 3, 2] (take 3 (steps_of (trace (heapGen [1, 3, 2])))) \<and>
   take 3 (steps_of (trace (heapGen [1, 3, 2]))) = [Compare 1 (Some 2), Compare 0 (Some 1), Swap 0 1] \<and>
   after_pulls [1, 3, 2] (trace (heapGen [1, 3, 2])) 3 = [3, 1, 2]"
proof -
  have g: "generators ''heap'' = Some heapGen" by (simp add: generators_def)
  have k: "(3 :: nat) \<le> length (yields (trace (heapGen [1, 3, 2])))" by code_simp
  have s: "take 3 (steps_of (trace (heapGen [1, 3, 2]))) = [Compare 1 (Some 2), Compare 0 (Some 1), Swap 0 1]"
    by code_simp
  have v: "after_pulls [1, 3, 2] (trace (heapGen [1, 3, 2])) 3 = [3, 1, 2]" by code_simp
  from pulled_prefix_replay [OF g k] g k s v show ?thesis by simp
qed

section \<open>Compare steps and comparisons (C4)\<close>

text \<open>
  C4, as stated: every generator yields the \<^verbatim>\<open>compare\<close> step immediately before the value
  comparison it reports, and the partition of \<^verbatim>\<open>quickGen\<close> yields one single-index
  \<^verbatim>\<open>compare\<close> step per element it inspects, also for the inspection that ends a scan.
  This fails for \<^verbatim>\<open>quickGen\<close>: the scans are \<^verbatim>\<open>while (arr[i] < pivot) { yield ...; i++ }\<close>,
  so the step is yielded in the loop body, after the comparison and only when it came
  out true. On \<^verbatim>\<open>[1,2]\<close> the run starts with the comparison of position 0, which no
  step precedes or follows.

  C4, amended: in \<^verbatim>\<open>bubbleGen\<close>, \<^verbatim>\<open>mergeGen\<close> and \<^verbatim>\<open>heapGen\<close> every comparison of element
  values is immediately preceded by the yield of the \<^verbatim>\<open>compare\<close> step that names the
  compared positions. In \<^verbatim>\<open>quickGen\<close> every \<^verbatim>\<open>compare\<close> step is yielded immediately after the
  comparison of the position it names with the pivot; a scan yields one single-index
  \<^verbatim>\<open>compare\<close> step for each position it moves past, after the comparison that came out
  true, and none for the position whose comparison ends the scan.
\<close>

theorem compare_placement:
  "(generators name = Some g \<and> (name = ''bubble'' \<or> name = ''merge'' \<or> name = ''heap'') \<longrightarrow>
      announced (trace (g A))) \<and>
   reported (trace (quickGen A)) \<and>
   added st (snd (scan_left pivot i st)) =
     scan_events (arr st) [i..fst (scan_left pivot i st) - 1] (fst (scan_left pivot i st)) \<and>
   added st (snd (scan_right pivot j st)) =
     scan_events (arr st) (rev [fst (scan_right pivot j st) + 1..j]) (fst (scan_right pivot j st))"
proof (intro conjI impI)
  assume a: "generators name = Some g \<and> (name = ''bubble'' \<or> name = ''merge'' \<or> name = ''heap'')"
  then have "g = bubbleGen \<or> g = mergeGen \<or> g = heapGen"
    by (auto simp: generators_def split: if_splits)
  then show "announced (trace (g A))"
    using bubbleGen_run [of A] mergeGen_run [of A] heapGen_run [of A] run_announced [of A]
    by auto
qed (simp_all add: quickGen_reported scan_left_added scan_right_added)

theorem compare_placement_witness:
  "generators ''heap'' = Some heapGen \<and> announced (trace (heapGen [1, 3, 2])) \<and>
   trace (heapGen [1, 3, 2]) =
     [Yield (Compare 1 (Some 2)) [1, 3, 2], Test 1 (Some 2), Yield (Compare 0 (Some 1)) [1, 3, 2],
      Test 0 (Some 1), Yield (Swap 0 1) [3, 1, 2], Yield (Swap 0 2) [2, 1, 3],
      Yield (Compare 0 (Some 1)) [2, 1, 3], Test 0 (Some 1), Yield (Swap 0 1) [1, 2, 3],
      Yield Done [1, 2, 3]]"
proof -
  have g: "generators ''heap'' = Some heapGen" by (simp add: generators_def)
  have t: "trace (heapGen [1, 3, 2]) =
     [Yield (Compare 1 (Some 2)) [1, 3, 2], Test 1 (Some 2), Yield (Compare 0 (Some 1)) [1, 3, 2],
      Test 0 (Some 1), Yield (Swap 0 1) [3, 1, 2], Yield (Swap 0 2) [2, 1, 3],
      Yield (Compare 0 (Some 1)) [2, 1, 3], Test 0 (Some 1), Yield (Swap 0 1) [1, 2, 3],
      Yield Done [1, 2, 3]]" by code_simp
  from compare_placement [of "''heap''" heapGen "[1, 3, 2]"] g t show ?thesis by simp
qed

theorem compare_placement_counterexample:
  "generators ''quick'' = Some quickGen \<and>
   trace (quickGen [1, 2]) =
     [Test 0 None, Test 1 None, Yield (Compare 1 None) [1, 2], Test 0 None,
      Yield (Swap 0 0) [1, 2], Yield Done [1, 2]] \<and>
   \<not> announced (trace (quickGen [1, 2]))"
proof -
  have "generators ''quick'' = Some quickGen" by (simp add: generators_def)
  moreover have t: "trace (quickGen [1, 2]) =
     [Test 0 None, Test 1 None, Yield (Compare 1 None) [1, 2], Test 0 None,
      Yield (Swap 0 0) [1, 2], Yield Done [1, 2]]" by code_simp
  moreover have "\<not> announced (trace (quickGen [1, 2]))"
    unfolding t by (simp add: announced_def)
  ultimately show ?thesis by simp
qed

section \<open>Empty and single-element arrays (C5)\<close>

text \<open>
  C5, as stated: for every empty or single-element input array each of the five
  generators yields only \<^verbatim>\<open>done()\<close>. This fails for \<^verbatim>\<open>radixGen\<close> on a single element that
  scales to a positive integer: \<^verbatim>\<open>radixGen\<close> has no guard for short arrays and runs one
  bucket pass per decimal digit of the largest scaled element, each of which yields a
  \<^verbatim>\<open>compare\<close> and a \<^verbatim>\<open>set\<close> step per element.

  C5, amended: on the empty array every generator of the registry yields only
  \<^verbatim>\<open>done()\<close>, with no \<^verbatim>\<open>compare\<close>, \<^verbatim>\<open>swap\<close> or \<^verbatim>\<open>set\<close> step, no comparison and no throw
  (for \<^verbatim>\<open>heapGen\<close> the sequence is exactly \<^verbatim>\<open>[done()]\<close>); on a single-element array
  \<^verbatim>\<open>bubbleGen\<close>, \<^verbatim>\<open>quickGen\<close>, \<^verbatim>\<open>mergeGen\<close> and \<^verbatim>\<open>heapGen\<close> do the same; \<^verbatim>\<open>radixGen\<close>
  does the same on a single element that scales to zero or less
  (\<^verbatim>\<open>Math.floor(x * 1000) <= 0\<close>).
\<close>

theorem degenerate_inputs:
  "(generators name = Some g \<longrightarrow> trace (g []) = [Yield Done []]) \<and>
   (generators name = Some g \<and> name \<noteq> ''radix'' \<longrightarrow> trace (g [x]) = [Yield Done [x]]) \<and>
   (\<lfloor>x * 1000\<rfloor> \<le> 0 \<longrightarrow> trace (radixGen [x]) = [Yield Done [x]])"
proof (intro conjI impI)
  assume "generators name = Some g"
  from generators_cases [OF this] show "trace (g []) = [Yield Done []]"
    using bubble_small [of "[]"] quick_small [of "[]"] merge_small [of "[]"] heap_small [of "[]"]
      radix_zero [of "[]"] by auto
next
  assume a: "generators name = Some g \<and> name \<noteq> ''radix''"
  then have "g = bubbleGen \<or> g = quickGen \<or> g = mergeGen \<or> g = heapGen"
    by (auto simp: generators_def split: if_splits)
  then show "trace (g [x]) = [Yield Done [x]]"
    using bubble_small [of "[x]"] quick_small [of "[x]"] merge_small [of "[x]"] heap_small [of "[x]"]
    by auto
next
  assume "\<lfloor>x * 1000\<rfloor> \<le> 0"
  then show "trace (radixGen [x]) = [Yield Done [x]]"
    using radix_zero [of "[x]"] by simp
qed

theorem degenerate_inputs_witness:
  "generators ''heap'' = Some heapGen \<and> trace (heapGen []) = [Yield Done []] \<and>
   ''heap'' \<noteq> ''radix'' \<and> trace (heapGen [1 / 2]) = [Yield Done [1 / 2]] \<and>
   \<lfloor>(1 / 2000 :: rat) * 1000\<rfloor> \<le> 0 \<and> trace (radixGen [1 / 2000]) = [Yield Done [1 / 2000]]"
proof -
  have g: "generators ''heap'' = Some heapGen" by (simp add: generators_def)
  have f: "\<lfloor>(1 / 2000 :: rat) * 1000\<rfloor> \<le> 0" by code_simp
  from degenerate_inputs [of "''heap''" heapGen "1 / 2"] degenerate_inputs [of "''heap''" heapGen "1 / 2000"] g f
  show ?thesis by simp
qed

theorem radix_single_counterexample:
  "generators ''radix'' = Some radixGen \<and>
   steps_of (trace (radixGen [1 / 2])) =
     [Compare 0 None, SetV 0 (1 / 2), Compare 0 None, SetV 0 (1 / 2),
      Compare 0 None, SetV 0 (1 / 2), Done] \<and>
   steps_of (trace (radixGen [1 / 2])) \<noteq> [Done]"
proof -
  have "generators ''radix'' = Some radixGen" by (simp add: generators_def)
  moreover have "steps_of (trace (radixGen [1 / 2])) =
     [Compare 0 None, SetV 0 (1 / 2), Compare 0 None, SetV 0 (1 / 2),
      Compare 0 None, SetV 0 (1 / 2), Done]" by code_simp
  ultimately show ?thesis by simp
qed

section \<open>The done step (C6)\<close>

text \<open>
  C6. For every generator of the registry the sequence yields \<^verbatim>\<open>done()\<close> exactly once,
  that step is the last one yielded, and the generator returns right after it, so no
  further step can be pulled: for \<^verbatim>\<open>bubbleGen\<close>, \<^verbatim>\<open>quickGen\<close>, \<^verbatim>\<open>mergeGen\<close> and
  \<^verbatim>\<open>heapGen\<close> on every input array, for \<^verbatim>\<open>radixGen\<close> on every input array with elements
  in \<open>[0,1)\<close>, the input that the source assumes (there every scaled value is an integer
  of \<open>0..1000\<close> and every digit one of \<open>0..9\<close>, in binary64 as in the model).
\<close>

theorem done_exactly_once_last:
  assumes "generators name = Some g"
    and "name = ''radix'' \<longrightarrow> (\<forall>x \<in> set A. 0 \<le> x \<and> x < 1)"
  shows "done_once_last (g A)"
proof -
  from assms(1) have "(name = ''radix'' \<and> g = radixGen) \<or>
      (name \<noteq> ''radix'' \<and> (g = bubbleGen \<or> g = quickGen \<or> g = mergeGen \<or> g = heapGen))"
    by (auto simp: generators_def split: if_splits)
  then show ?thesis
  proof
    assume r: "name = ''radix'' \<and> g = radixGen"
    with assms(2) have "\<forall>x \<in> set A. 0 \<le> x" by simp
    from radixGen_spec [OF this] r show ?thesis by (auto intro: run_done_once_last)
  next
    assume "name \<noteq> ''radix'' \<and> (g = bubbleGen \<or> g = quickGen \<or> g = mergeGen \<or> g = heapGen)"
    then show ?thesis
      using bubbleGen_run [of A] quickGen_run [of A] mergeGen_run [of A] heapGen_run [of A]
      by (auto intro: run_done_once_last)
  qed
qed

theorem done_exactly_once_last_witness:
  "generators ''radix'' = Some radixGen \<and>
   (0 :: rat) \<le> 3 / 8 \<and> (3 / 8 :: rat) < 1 \<and> (0 :: rat) \<le> 1 / 8 \<and> (1 / 8 :: rat) < 1 \<and>
   done_once_last (radixGen [3 / 8, 1 / 8]) \<and>
   generators ''quick'' = Some quickGen \<and> ''quick'' \<noteq> ''radix'' \<and>
   done_once_last (quickGen [3, 1, 2]) \<and>
   steps_of (trace (quickGen [3, 1, 2])) = [Compare 2 None, Swap 0 1, Swap 1 2, Done]"
proof -
  have gr: "generators ''radix'' = Some radixGen" by (simp add: generators_def)
  have gq: "generators ''quick'' = Some quickGen" by (simp add: generators_def)
  have hr: "''radix'' = ''radix'' \<longrightarrow> (\<forall>x \<in> set [3 / 8, 1 / 8 :: rat]. 0 \<le> x \<and> x < 1)" by simp
  have hq: "''quick'' = ''radix'' \<longrightarrow> (\<forall>x \<in> set [3, 1, 2 :: rat]. 0 \<le> x \<and> x < 1)" by simp
  have n: "steps_of (trace (quickGen [3, 1, 2])) = [Compare 2 None, Swap 0 1, Swap 1 2, Done]"
    by code_simp
  from done_exactly_once_last [OF gr hr] done_exactly_once_last [OF gq hq] gr gq n
  show ?thesis by simp
qed

text \<open>
  Outside that domain \<^verbatim>\<open>radixGen\<close> need not reach \<^verbatim>\<open>done()\<close>: on \<open>[-0.125, 0.5]\<close> the
  scaled values are \<open>-125\<close> and \<open>500\<close>, the first digit of \<open>-125\<close> is \<open>-5\<close>, for which
  there is no bucket, and the call of \<^verbatim>\<open>push\<close> throws after \<^verbatim>\<open>compare(0)\<close> was yielded.
\<close>

theorem radix_negative_counterexample:
  "generators ''radix'' = Some radixGen \<and>
   trace (radixGen [- (1 / 8), 1 / 2]) = [Yield (Compare 0 None) [- (1 / 8), 1 / 2], Throw] \<and>
   steps_of (trace (radixGen [- (1 / 8), 1 / 2])) = [Compare 0 None] \<and>
   \<not> done_once_last (radixGen [- (1 / 8), 1 / 2])"
proof -
  have g: "generators ''radix'' = Some radixGen" by (simp add: generators_def)
  have t: "trace (radixGen [- (1 / 8), 1 / 2]) = [Yield (Compare 0 None) [- (1 / 8), 1 / 2], Throw]"
    by code_simp
  from t have s: "steps_of (trace (radixGen [- (1 / 8), 1 / 2])) = [Compare 0 None]"
    by (simp add: steps_of_def)
  from s have "\<not> done_once_last (radixGen [- (1 / 8), 1 / 2])"
    by (simp add: done_once_last_def)
  with g t s show ?thesis by simp
qed

section \<open>The merge scenario (C8)\<close>

text \<open>
  C8. On the input \<^verbatim>\<open>[5,3,1,4,2]\<close>, \<^verbatim>\<open>mergeGen\<close> driven to exhaustion leaves
  \<^verbatim>\<open>[1,2,3,4,5]\<close>, and exactly 5 \<^verbatim>\<open>set\<close> steps are yielded during the final, top-level
  merge (the merge of the range \<open>0..4\<close>, which is the last thing the run does before
  \<^verbatim>\<open>done()\<close>).
\<close>

theorem merge_scenario:
  "arr (mergeGen [5, 3, 1, 4, 2]) = [1, 2, 3, 4, 5] \<and>
   mergeGen [5, 3, 1, 4, 2] =
     yield Done (merge_phase 0 2 4 (mergeRange 3 4 (mergeRange 0 2 (initial [5, 3, 1, 4, 2])))) \<and>
   steps_of
     (added (mergeRange 3 4 (mergeRange 0 2 (initial [5, 3, 1, 4, 2])))
            (merge_phase 0 2 4 (mergeRange 3 4 (mergeRange 0 2 (initial [5, 3, 1, 4, 2]))))) =
     [Compare 0 (Some 3), SetV 0 1, Compare 1 (Some 3), SetV 1 2, Compare 1 (Some 4), SetV 2 3,
      Compare 2 (Some 4), SetV 3 4, SetV 4 5] \<and>
   length (filter is_set (steps_of
     (added (mergeRange 3 4 (mergeRange 0 2 (initial [5, 3, 1, 4, 2])))
            (merge_phase 0 2 4 (mergeRange 3 4 (mergeRange 0 2 (initial [5, 3, 1, 4, 2]))))))) = 5"
  by code_simp

section \<open>The bubble scenario (C9)\<close>

text \<open>
  C9. On the input \<^verbatim>\<open>[3,1,2]\<close>, \<^verbatim>\<open>bubbleGen\<close> driven to exhaustion leaves \<^verbatim>\<open>[1,2,3]\<close>; the
  first step yielded is \<^verbatim>\<open>compare(0,1)\<close> and a \<^verbatim>\<open>swap(0,1)\<close> step occurs. Moreover, on every
  input, a \<^verbatim>\<open>swap\<close> step of \<^verbatim>\<open>bubbleGen\<close> reports the exchange of two adjacent positions
  \<open>x\<close> and \<open>x + 1\<close> that held a strict inversion: in the array before the exchange
  (the array at the yield with the exchange undone) the element at \<open>x\<close> is strictly
  greater than the one at \<open>x + 1\<close>. Equal elements are never exchanged.
\<close>

theorem bubble_scenario:
  "arr (bubbleGen [3, 1, 2]) = [1, 2, 3] \<and>
   hd (steps_of (trace (bubbleGen [3, 1, 2]))) = Compare 0 (Some 1) \<and>
   Swap 0 1 \<in> set (steps_of (trace (bubbleGen [3, 1, 2]))) \<and>
   ((Swap x y, a) \<in> set (yields (trace (bubbleGen A))) \<longrightarrow>
      y = x + 1 \<and> js_gt (rd (swap_arr a x y) x) (rd (swap_arr a x y) y))"
proof (intro conjI impI)
  show "arr (bubbleGen [3, 1, 2]) = [1, 2, 3]" by code_simp
  show "hd (steps_of (trace (bubbleGen [3, 1, 2]))) = Compare 0 (Some 1)" by code_simp
  show "Swap 0 1 \<in> set (steps_of (trace (bubbleGen [3, 1, 2])))" by code_simp
next
  assume m: "(Swap x y, a) \<in> set (yields (trace (bubbleGen A)))"
  have y: "Yield (Swap x y) a \<in> set (trace (bubbleGen A))"
    using m by (simp add: yields_mem)
  have yx: "y = x + 1" and lt: "js_lt (rd a x) (rd a y)"
    using bubbleGen_swaps [of A] y by (auto simp: swaps_strict_def)
  from yx show "y = x + 1" .
  have r: "in_range (length a) x" "in_range (length a) y"
    using lt js_lt_in_range [of a x] js_gt_in_range [of a y] by (simp_all add: js_gt_def)
  have "x \<noteq> y" using yx by simp
  then show "js_gt (rd (swap_arr a x y) x) (rd (swap_arr a x y) y)"
    using lt by (simp add: rd_swap_arr [OF r] js_gt_def)
qed

theorem bubble_scenario_witness:
  "(Swap 1 2, [1, 2, 3]) \<in> set (yields (trace (bubbleGen [3, 1, 2]))) \<and>
   (2 :: int) = 1 + 1 \<and> swap_arr [1, 2, 3] 1 2 = [1, 3, 2] \<and>
   js_gt (rd (swap_arr [1, 2, 3] 1 2) 1) (rd (swap_arr [1, 2, 3] 1 2) 2)"
proof -
  have m: "(Swap 1 2, [1, 2, 3]) \<in> set (yields (trace (bubbleGen [3, 1, 2])))" by code_simp
  have s: "swap_arr [1, 2, 3] 1 2 = [1, 3, 2]" by code_simp
  from bubble_scenario [of 1 2 "[1, 2, 3]" "[3, 1, 2]"] m s show ?thesis by simp
qed

section \<open>Arrays below the resolution of radixGen (C10)\<close>

text \<open>
  C10. When every element of the input lies in \<open>[0, 0.001)\<close>, so that every element
  scales to the integer 0, \<^verbatim>\<open>radixGen\<close> yields exactly one step, \<^verbatim>\<open>done()\<close>, and leaves the
  working array unchanged, also when the input is not sorted.
\<close>

theorem radix_all_below_resolution:
  assumes "\<forall>x \<in> set A. 0 \<le> x \<and> x < 1 / 1000"
  shows "trace (radixGen A) = [Yield Done A] \<and> arr (radixGen A) = A"
proof -
  have "\<forall>x \<in> set A. \<lfloor>x * 1000\<rfloor> \<le> 0"
  proof
    fix x assume "x \<in> set A"
    with assms have "x * 1000 < 1" by simp
    then have "\<lfloor>x * 1000\<rfloor> < 1" by (simp add: floor_less_iff)
    then show "\<lfloor>x * 1000\<rfloor> \<le> 0" by simp
  qed
  from radix_zero [OF this] show ?thesis by simp
qed

theorem radix_all_below_resolution_witness:
  "(0 :: rat) \<le> 1 / 2000 \<and> (1 / 2000 :: rat) < 1 / 1000 \<and> (0 :: rat) \<le> 1 / 10000 \<and>
   (1 / 10000 :: rat) < 1 / 1000 \<and>
   trace (radixGen [1 / 2000, 1 / 10000]) = [Yield Done [1 / 2000, 1 / 10000]] \<and>
   arr (radixGen [1 / 2000, 1 / 10000]) = [1 / 2000, 1 / 10000] \<and>
   \<not> sorted [1 / 2000, 1 / 10000 :: rat]"
proof -
  have ns: "\<not> sorted [1 / 2000, 1 / 10000 :: rat]" by code_simp
  have h: "(0 :: rat) \<le> 1 / 2000 \<and> (1 / 2000 :: rat) < 1 / 1000 \<and> (0 :: rat) \<le> 1 / 10000 \<and>
    (1 / 10000 :: rat) < 1 / 1000" by simp
  then have "\<forall>x \<in> set [1 / 2000, 1 / 10000 :: rat]. 0 \<le> x \<and> x < 1 / 1000" by simp
  from radix_all_below_resolution [OF this] ns h show ?thesis by blast
qed


end
